theory Spec2Isabelle
  imports Complex_Main "HOL-Library.Sublist" "HOL-Library.Multiset"
begin

section \<open>Report aggregation: \<open>generateSummaryReport\<close>\<close>

text \<open>
  An element of \<open>batchResults\<close>. The batch pushes either \<open>{url, error}\<close> or
  \<open>{url, scores, reportPath, screenshotPath}\<close>; a property that is not set reads as
  \<open>undefined\<close>, which is \<open>None\<close> here. A \<open>scores\<close> object is a list of
  (category, score) pairs in insertion order, read with \<open>map_of\<close>. Scores are JavaScript
  numbers; they are taken as real numbers.
\<close>

record batch_entry =
  url :: string
  error :: "string option"
  scores :: "(string \<times> real) list option"
  reportPath :: "string option"
  screenshotPath :: "string option"

text \<open>\<open>r.error\<close> in a condition: \<open>undefined\<close> and the empty string are falsy.\<close>

definition truthy_string :: "string option \<Rightarrow> bool" where
  "truthy_string s = (case s of None \<Rightarrow> False | Some m \<Rightarrow> m \<noteq> [])"

text \<open>\<open>r.scores[category]\<close>, for an entry that has \<open>scores\<close>.\<close>

definition score_at :: "batch_entry \<Rightarrow> string \<Rightarrow> real option" where
  "score_at r category = (case scores r of None \<Rightarrow> None | Some sc \<Rightarrow> map_of sc category)"

text \<open>\<open>Object.keys(result.scores)\<close>.\<close>

definition object_keys :: "batch_entry \<Rightarrow> string list" where
  "object_keys r = (case scores r of None \<Rightarrow> [] | Some sc \<Rightarrow> map fst sc)"

text \<open>\<open>categories.add(category)\<close> on a \<open>Set\<close>, which keeps insertion order.\<close>

definition set_add :: "string list \<Rightarrow> string \<Rightarrow> string list" where
  "set_add cs c = (if c \<in> set cs then cs else cs @ [c])"

definition all_categories :: "batch_entry list \<Rightarrow> string list" where
  "all_categories successfulResults =
     foldl (\<lambda>categories result. foldl set_add categories (object_keys result)) [] successfulResults"

text \<open>The body of \<open>categories.forEach\<close>: the sum by \<open>reduce\<close>, the count, the quotient.\<close>

definition category_average :: "batch_entry list \<Rightarrow> string \<Rightarrow> real" where
  "category_average successfulResults category =
     (let having = filter (\<lambda>r. score_at r category \<noteq> None) successfulResults;
          sum = foldl (\<lambda>acc r. acc + (case score_at r category of Some v \<Rightarrow> v | None \<Rightarrow> 0)) 0 having;
          count = length having
      in if count > 0 then sum / real count else 0)"

record summaryData =
  totalWebsites :: nat
  successfulTests :: nat
  failedTests :: nat
  totalTime :: real
  results :: "batch_entry list"
  averageScores :: "(string \<times> real) list option"

text \<open>
  The \<open>summaryData\<close> object that \<open>generateSummaryReport\<close> builds (in both batch scripts;
  the sequential one has no \<open>totalTime\<close>). Writing it to the report files is left out.
\<close>

definition generateSummaryReport :: "batch_entry list \<Rightarrow> real \<Rightarrow> summaryData" where
  "generateSummaryReport rs elapsed =
     (let successfulResults = filter (\<lambda>r. scores r \<noteq> None) rs
      in \<lparr> totalWebsites = length rs,
           successfulTests = length (filter (\<lambda>r. \<not> truthy_string (error r)) rs),
           failedTests = length (filter (\<lambda>r. truthy_string (error r)) rs),
           totalTime = elapsed,
           results = rs,
           averageScores =
             (if length successfulResults > 0
              then Some (map (\<lambda>c. (c, category_average successfulResults c))
                             (all_categories successfulResults))
              else None) \<rparr>)"

text \<open>\<open>summary.averageScores[category]\<close>.\<close>

definition average_of :: "summaryData \<Rightarrow> string \<Rightarrow> real option" where
  "average_of s category = (case averageScores s of None \<Rightarrow> None | Some avgs \<Rightarrow> map_of avgs category)"

text \<open>
  The specification's words: the mean of a category is taken over the results that have
  scores and have that category; a result without it contributes nothing.
\<close>

definition contributions :: "batch_entry list \<Rightarrow> string \<Rightarrow> real list" where
  "contributions rs category = List.map_filter (\<lambda>r. score_at r category) rs"

definition spec_category_mean :: "batch_entry list \<Rightarrow> string \<Rightarrow> real option" where
  "spec_category_mean rs category =
     (let xs = contributions rs category
      in if xs = [] then None else Some (sum_list xs / real (length xs)))"

text \<open>The two entries the batch pushes.\<close>

definition failure_entry :: "string \<Rightarrow> string \<Rightarrow> batch_entry" where
  "failure_entry website msg =
     \<lparr> url = website, error = Some msg, scores = None, reportPath = None, screenshotPath = None \<rparr>"

definition success_entry :: "string \<Rightarrow> (string \<times> real) list \<Rightarrow> string \<Rightarrow> string option \<Rightarrow> batch_entry" where
  "success_entry website sc report shot =
     \<lparr> url = website, error = None, scores = Some sc, reportPath = Some report, screenshotPath = shot \<rparr>"

section \<open>The concurrency limiter: \<open>ResourceManager\<close>\<close>

text \<open>
  The object's three fields. \<open>maxConcurrent\<close> is a number of browser instances, a
  natural number. \<open>running\<close> is decremented without a test, so it is an integer. The
  queue holds the \<open>resolve\<close> callbacks of the pending \<open>acquire\<close> promises; a callback
  is named by the job that waits on it.
\<close>

record ResourceManager =
  maxConcurrent :: nat
  running :: int
  queue :: "nat list"

definition new_ResourceManager :: "nat \<Rightarrow> ResourceManager" where
  "new_ResourceManager cap = \<lparr> maxConcurrent = cap, running = 0, queue = [] \<rparr>"

text \<open>
  \<open>acquire\<close>: the flag says whether the promise is resolved at once (\<open>return true\<close>) or
  stays pending with its callback queued.
\<close>

definition acquire :: "nat \<Rightarrow> ResourceManager \<Rightarrow> bool \<times> ResourceManager" where
  "acquire caller this =
     (if running this < int (maxConcurrent this)
      then (True, this\<lparr> running := running this + 1 \<rparr>)
      else (False, this\<lparr> queue := queue this @ [caller] \<rparr>))"

text \<open>\<open>release\<close>: the job whose callback is called (\<open>queue.shift()\<close>), if any.\<close>

definition release :: "ResourceManager \<Rightarrow> nat option \<times> ResourceManager" where
  "release this =
     (case queue this of
        nxt # rest \<Rightarrow> (Some nxt, this\<lparr> queue := rest \<rparr>)
      | [] \<Rightarrow> (None, this\<lparr> running := running this - 1 \<rparr>))"

text \<open>
  The jobs of one batch around the manager. \<open>testWebsite\<close> calls \<open>acquire\<close> once, and
  \<open>release\<close> once after its \<open>acquire\<close> promise has been resolved. A job is \<open>Holding\<close>
  from the resolution of its \<open>acquire\<close> promise to its \<open>release\<close>. The calls of
  different jobs interleave in any order: a run is a list of events, and an event that
  the job's position in \<open>testWebsite\<close> does not allow has no successor state.
\<close>

datatype phase = NotStarted | Waiting | Holding | Released

datatype event = Acquire nat | Release nat

record limiter_state =
  manager :: ResourceManager
  phases :: "phase list"

definition start :: "nat \<Rightarrow> nat \<Rightarrow> limiter_state" where
  "start cap n = \<lparr> manager = new_ResourceManager cap, phases = replicate n NotStarted \<rparr>"

fun step :: "limiter_state \<Rightarrow> event \<Rightarrow> limiter_state option" where
  "step s (Acquire i) =
     (if i < length (phases s) \<and> phases s ! i = NotStarted
      then (case acquire i (manager s) of
              (granted, m) \<Rightarrow>
                Some \<lparr> manager = m,
                       phases = (phases s)[i := (if granted then Holding else Waiting)] \<rparr>)
      else None)"
| "step s (Release i) =
     (if i < length (phases s) \<and> phases s ! i = Holding
      then (case release (manager s) of
              (None, m) \<Rightarrow> Some \<lparr> manager = m, phases = (phases s)[i := Released] \<rparr>
            | (Some j, m) \<Rightarrow>
                Some \<lparr> manager = m, phases = ((phases s)[i := Released])[j := Holding] \<rparr>)
      else None)"

fun run :: "limiter_state \<Rightarrow> event list \<Rightarrow> limiter_state option" where
  "run s [] = Some s"
| "run s (e # es) = (case step s e of None \<Rightarrow> None | Some s' \<Rightarrow> run s' es)"

text \<open>The number of jobs between a resolved \<open>acquire\<close> and their \<open>release\<close>.\<close>

definition in_flight :: "limiter_state \<Rightarrow> nat" where
  "in_flight s = length (filter (\<lambda>p. p = Holding) (phases s))"

section \<open>Values, exceptions and the test options\<close>

text \<open>A thrown JavaScript error; \<open>message\<close> is its \<open>.message\<close>.\<close>

datatype exn = Error (message: string) | TypeError (message: string) | FsError (message: string)

text \<open>
  What \<open>runLighthouseTest\<close> returns (the fields the batch reads) and what
  \<open>runFullTest\<close> returns: \<open>{screenshotPath, lighthouse}\<close>.
\<close>

datatype lighthouse_report =
  LighthouseReport (filePath: string) (summaryPath: "string option")
    (lighthouse_scores: "(string \<times> real) list")

record full_result =
  lighthouse :: "lighthouse_report option"
  results_screenshotPath :: "string option"

text \<open>
  What \<open>testWebsite\<close> returns: the results of the full test, the object
  \<open>{url, error}\<close>, or \<open>null\<close>.
\<close>

datatype job_value = Results full_result | Failed string string | NullValue

text \<open>
  The options objects live in a store, since \<open>testWebsite\<close> copies and then mutates
  them. An options object is its properties in their order: the properties before
  \<open>screenshotOptions\<close>, the \<open>screenshotOptions\<close> property, which is absent or a
  reference to a screenshot-options object, and the properties after it. The other
  properties are written to by no function of the repository and are kept by value.
  An address is an index into the store; a new object is appended.
\<close>

datatype jsval = JUndefined | JNull | JBool bool | JNum int | JStr string | JArr "jsval list"

type_synonym props = "(string \<times> jsval) list"

record options_obj =
  props_before :: props
  screenshotOptions :: "nat option"
  props_after :: props

record store =
  option_objs :: "options_obj list"
  screenshot_objs :: "props list"

text \<open>
  The value of an options object as \<open>JSON.stringify\<close> and \<open>runFullTest\<close> read it: the
  properties in their order, with the screenshot-options object, if the property is
  there, in its place between them. An object without the property has all its
  properties in the first part. Two objects with the same properties in another order
  have different values.
\<close>

datatype options_json =
  OptionsJson (json_before: props) (json_screenshotOptions: "props option") (json_after: props)

definition options_value :: "store \<Rightarrow> nat \<Rightarrow> options_json" where
  "options_value st a =
     (let ob = option_objs st ! a
      in case screenshotOptions ob of
           None \<Rightarrow> OptionsJson (props_before ob @ props_after ob) None []
         | Some r \<Rightarrow> OptionsJson (props_before ob) (Some (screenshot_objs st ! r)) (props_after ob))"

text \<open>\<open>obj[k] = v\<close> on a property list: an existing key keeps its place.\<close>

definition set_prop :: "string \<Rightarrow> jsval \<Rightarrow> props \<Rightarrow> props" where
  "set_prop k v ps =
     (if k \<in> fst ` set ps then map (\<lambda>(k', v'). if k' = k then (k', v) else (k', v')) ps
      else ps @ [(k, v)])"

definition get_prop :: "string \<Rightarrow> props \<Rightarrow> jsval" where
  "get_prop k ps = (case map_of ps k of None \<Rightarrow> JUndefined | Some v \<Rightarrow> v)"

text \<open>\<open>const enhancedOptions = { ...options }\<close>: a new object with the same properties.\<close>

definition spread_options :: "store \<Rightarrow> nat \<Rightarrow> nat \<times> store" where
  "spread_options st options =
     (length (option_objs st), st\<lparr> option_objs := option_objs st @ [option_objs st ! options] \<rparr>)"

text \<open>
  \<open>enhancedOptions.screenshotOptions = { ...enhancedOptions.screenshotOptions,
  waitUntil: 'domcontentloaded', timeout: 60000 }\<close>: a new screenshot-options object,
  and the property of \<open>enhancedOptions\<close> set to it. A property that is there keeps its
  place; one that is not is added after all the others.
\<close>

definition assign_screenshotOptions :: "store \<Rightarrow> nat \<Rightarrow> store" where
  "assign_screenshotOptions st enhancedOptions =
     (let ob = option_objs st ! enhancedOptions;
          old = (case screenshotOptions ob of None \<Rightarrow> [] | Some r \<Rightarrow> screenshot_objs st ! r);
          fresh = set_prop ''timeout'' (JNum 60000)
                    (set_prop ''waitUntil'' (JStr ''domcontentloaded'') old);
          r' = length (screenshot_objs st);
          ob' = (case screenshotOptions ob of
                   None \<Rightarrow> \<lparr> props_before = props_before ob @ props_after ob,
                             screenshotOptions = Some r', props_after = [] \<rparr>
                 | Some r \<Rightarrow> ob\<lparr> screenshotOptions := Some r' \<rparr>)
      in st\<lparr> screenshot_objs := screenshot_objs st @ [fresh],
             option_objs := (option_objs st)[enhancedOptions := ob'] \<rparr>)"

text \<open>
  \<open>enhancedOptions.screenshotOptions.k = v\<close>. The assignment would throw were the
  property \<open>undefined\<close>; \<open>testWebsite\<close> makes it only after the assignment above, so
  that branch leaves the store as it is.
\<close>

definition set_screenshot_prop :: "store \<Rightarrow> nat \<Rightarrow> string \<Rightarrow> jsval \<Rightarrow> store" where
  "set_screenshot_prop st enhancedOptions k v =
     (case screenshotOptions (option_objs st ! enhancedOptions) of
        None \<Rightarrow> st
      | Some r \<Rightarrow> st\<lparr> screenshot_objs := (screenshot_objs st)[r := set_prop k v (screenshot_objs st ! r)] \<rparr>)"

section \<open>The file system and the result cache\<close>

text \<open>
  A configuration file as \<open>JSON.parse\<close> returns it: \<open>websites\<close> and \<open>testOptions\<close>, each
  \<open>undefined\<close> when the file does not give it.
\<close>

record config =
  websites :: "string list option"
  testOptions :: "options_json option"

record cacheData =
  timestamp :: int
  result :: full_result

text \<open>
  The part of Node's \<open>fs\<close> that the cache and \<open>loadConfig\<close> use. A file holds the JSON
  text of a cache entry or of a configuration, or text that \<open>JSON.parse\<close> rejects.
  \<open>faulty\<close> says which calls on which paths throw (permissions, a full disk, an I/O
  error); \<open>existsSync\<close> never throws.
\<close>

datatype file_content = CacheJson cacheData | ConfigJson config | NotJson

datatype fs_call = ReadFile | WriteFile | Unlink

record filesystem =
  files :: "string \<Rightarrow> file_content option"
  faulty :: "fs_call \<Rightarrow> string \<Rightarrow> bool"

definition existsSync :: "filesystem \<Rightarrow> string \<Rightarrow> bool" where
  "existsSync fs p = (files fs p \<noteq> None)"

definition readFileSync :: "filesystem \<Rightarrow> string \<Rightarrow> exn + file_content" where
  "readFileSync fs p =
     (case files fs p of
        None \<Rightarrow> Inl (FsError (''ENOENT: no such file or directory, open '' @ p))
      | Some c \<Rightarrow> if faulty fs ReadFile p then Inl (FsError (''EACCES: permission denied, open '' @ p))
                  else Inr c)"

definition writeFileSync :: "filesystem \<Rightarrow> string \<Rightarrow> file_content \<Rightarrow> exn + filesystem" where
  "writeFileSync fs p c =
     (if faulty fs WriteFile p then Inl (FsError (''ENOSPC: no space left on device, write '' @ p))
      else Inr (fs\<lparr> files := (files fs)(p := Some c) \<rparr>))"

definition unlinkSync :: "filesystem \<Rightarrow> string \<Rightarrow> exn + filesystem" where
  "unlinkSync fs p =
     (case files fs p of
        None \<Rightarrow> Inl (FsError (''ENOENT: no such file or directory, unlink '' @ p))
      | Some c \<Rightarrow> if faulty fs Unlink p then Inl (FsError (''EPERM: operation not permitted, unlink '' @ p))
                  else Inr (fs\<lparr> files := (files fs)(p := None) \<rparr>))"

text \<open>
  The two library functions behind \<open>generateKey\<close>: the MD5 digest in hexadecimal
  (\<open>crypto\<close>) and \<open>JSON.stringify\<close> of \<open>{url, options}\<close>. Neither is code of the
  repository; they are parameters.
\<close>

record platform =
  md5_hex :: "string \<Rightarrow> string"
  JSON_stringify :: "string \<Rightarrow> options_json \<Rightarrow> string"

text \<open>The fields of a \<open>ResultCache\<close>: the \<open>Map\<close> from key to timestamp, and the two settings.\<close>

record ResultCache =
  cache :: "string \<Rightarrow> int option"
  cacheDuration :: int
  cacheDir :: string

definition generateKey :: "platform \<Rightarrow> ResultCache \<Rightarrow> string \<Rightarrow> options_json \<Rightarrow> string" where
  "generateKey pf this u options = md5_hex pf (JSON_stringify pf u options)"

text \<open>\<open>path.join(this.cacheDir, `${key}.json`)\<close>.\<close>

definition cacheFile :: "ResultCache \<Rightarrow> string \<Rightarrow> string" where
  "cacheFile this key = cacheDir this @ ''/'' @ key @ ''.json''"

text \<open>
  The methods take the clock reading \<open>now\<close> (\<open>Date.now()\<close>) and return the cache and the
  file system as they leave them, also when they throw.
\<close>

definition has :: "platform \<Rightarrow> ResultCache \<Rightarrow> filesystem \<Rightarrow> int \<Rightarrow> string \<Rightarrow> options_json
    \<Rightarrow> (exn + bool) \<times> ResultCache \<times> filesystem" where
  "has pf this fs now u options =
     (let key = generateKey pf this u options
      in case cache this key of
           None \<Rightarrow> (Inr False, this, fs)
         | Some stamp \<Rightarrow>
             (let isValid = (now - stamp < cacheDuration this)
              in if \<not> isValid
                 then (let this' = this\<lparr> cache := (cache this)(key := None) \<rparr>
                       in if existsSync fs (cacheFile this key)
                          then (case unlinkSync fs (cacheFile this key) of
                                  Inl e \<Rightarrow> (Inl e, this', fs)
                                | Inr fs' \<Rightarrow> (Inr isValid, this', fs'))
                          else (Inr isValid, this', fs))
                 else (Inr isValid, this, fs)))"

text \<open>
  \<open>get\<close> returns \<open>data.result\<close>, or \<open>null\<close> (\<open>None\<close>) when the entry is absent or the
  file cannot be read or parsed. A file that parses to an object without \<open>result\<close>
  gives \<open>undefined\<close>, which the callers treat as they treat \<open>null\<close>.
\<close>

definition get :: "platform \<Rightarrow> ResultCache \<Rightarrow> filesystem \<Rightarrow> int \<Rightarrow> string \<Rightarrow> options_json
    \<Rightarrow> (exn + full_result option) \<times> ResultCache \<times> filesystem" where
  "get pf this fs now u options =
     (let key = generateKey pf this u options
      in case has pf this fs now u options of
           (Inl e, this', fs') \<Rightarrow> (Inl e, this', fs')
         | (Inr False, this', fs') \<Rightarrow> (Inr None, this', fs')
         | (Inr True, this', fs') \<Rightarrow>
             (if existsSync fs' (cacheFile this' key)
              then (case readFileSync fs' (cacheFile this' key) of
                      Inl e \<Rightarrow> (Inr None, this', fs')
                    | Inr NotJson \<Rightarrow> (Inr None, this', fs')
                    | Inr (ConfigJson c) \<Rightarrow> (Inr None, this', fs')
                    | Inr (CacheJson data) \<Rightarrow> (Inr (Some (result data)), this', fs'))
              else (Inr None, this', fs')))"

definition set_result :: "platform \<Rightarrow> ResultCache \<Rightarrow> filesystem \<Rightarrow> int \<Rightarrow> string \<Rightarrow> options_json
    \<Rightarrow> full_result \<Rightarrow> ResultCache \<times> filesystem" where
  "set_result pf this fs now u options r =
     (let key = generateKey pf this u options;
          data = \<lparr> timestamp = now, result = r \<rparr>;
          this' = this\<lparr> cache := (cache this)(key := Some (timestamp data)) \<rparr>
      in case writeFileSync fs (cacheFile this' key) (CacheJson data) of
           Inl e \<Rightarrow> (this', fs)
         | Inr fs' \<Rightarrow> (this', fs'))"

section \<open>One job: \<open>testWebsite\<close>\<close>

text \<open>
  The two messages that \<open>testWebsite\<close> makes itself, as the UTF-8 bytes of the
  source's string literals: the error thrown when \<open>runFullTest\<close> returns no
  \<open>lighthouse\<close> result, and the message used when no error was recorded.
\<close>

definition no_valid_result :: string where
  "no_valid_result = [CHR 0xE6, CHR 0xB5, CHR 0x8B, CHR 0xE8, CHR 0xAF, CHR 0x95, CHR 0xE6, CHR 0x9C, CHR 0xAA, CHR 0xE8, CHR 0xBF, CHR 0x94, CHR 0xE5, CHR 0x9B, CHR 0x9E, CHR 0xE6, CHR 0x9C, CHR 0x89, CHR 0xE6, CHR 0x95, CHR 0x88, CHR 0xE7, CHR 0xBB, CHR 0x93, CHR 0xE6, CHR 0x9E, CHR 0x9C]"

definition unknown_error :: string where
  "unknown_error = [CHR 0xE6, CHR 0x9C, CHR 0xAA, CHR 0xE7, CHR 0x9F, CHR 0xA5, CHR 0xE9, CHR 0x94, CHR 0x99, CHR 0xE8, CHR 0xAF, CHR 0xAF]"

text \<open>\<open>error.message.includes(marker)\<close>.\<close>

definition message_includes :: "string \<Rightarrow> string \<Rightarrow> bool" where
  "message_includes msg marker = sublist marker msg"

text \<open>
  The lines of the \<open>try\<close> block after the call: a returned value without
  \<open>lighthouse\<close> becomes a thrown error.
\<close>

definition attempt_outcome :: "exn + full_result \<Rightarrow> exn + full_result" where
  "attempt_outcome out =
     (case out of
        Inl e \<Rightarrow> Inl e
      | Inr res \<Rightarrow> if lighthouse res \<noteq> None then Inr res
                       else Inl (Error no_valid_result))"

text \<open>
  The local state of the retry loop: the store, \<open>lastError\<close>, and a record of what the
  loop did: the options value passed to each call of \<open>runFullTest\<close> and each
  \<open>waitTime\<close> slept.
\<close>

record attempt_state =
  heap :: store
  lastError :: "exn option"
  calls :: "options_json list"
  waits :: "nat list"

text \<open>
  \<open>runFullTest\<close> drives the browser and the auditor; here it is a parameter that gives
  the outcome of the call made with \<open>retries = i\<close>, from the website and the options
  value it is passed. (\<open>runFullTest\<close> in \<open>index.js\<close> reads its options and writes to
  none of them.) The warm-up request before a retry absorbs all of its errors and
  changes nothing the job reads; it is left out.

  \<open>adjust_strategy\<close> is the adjustment at the head of the \<open>try\<close> block,
  \<open>catch_error\<close> the \<open>catch\<close> block up to its test of \<open>retries\<close>, and
  \<open>attempt_loop\<close> the \<open>while (retries <= maxRetries)\<close> loop. It returns the results when an attempt
  succeeds and \<open>None\<close> when it is left by \<open>break\<close> or by its condition.
\<close>

definition adjust_strategy :: "store \<Rightarrow> nat \<Rightarrow> nat \<Rightarrow> store" where
  "adjust_strategy h enhancedOptions retries =
     (if retries > 0
      then (let h' = set_screenshot_prop h enhancedOptions ''timeout''
                       (JNum (60000 + int retries * 30000))
            in if retries \<ge> 2
               then set_screenshot_prop h' enhancedOptions ''waitUntil'' (JStr ''load'')
               else h')
      else h)"

definition catch_error ::
  "attempt_state \<Rightarrow> store \<Rightarrow> options_json \<Rightarrow> nat \<Rightarrow> nat \<Rightarrow> nat \<Rightarrow> exn \<Rightarrow> attempt_state" where
  "catch_error ls h1 arg enhancedOptions maxRetries retries e =
     ls\<lparr> heap := (if message_includes (message e) ''start lh:driver:navigate'' \<and> retries < maxRetries
                   then set_screenshot_prop h1 enhancedOptions ''waitUntil'' (JStr ''load'')
                   else h1),
         lastError := Some e,
         calls := calls ls @ [arg] \<rparr>"

function attempt_loop ::
  "(nat \<Rightarrow> string \<Rightarrow> options_json \<Rightarrow> exn + full_result) \<Rightarrow> string \<Rightarrow> nat \<Rightarrow> nat \<Rightarrow> nat
    \<Rightarrow> attempt_state \<Rightarrow> full_result option \<times> attempt_state" where
  "attempt_loop runFullTest website enhancedOptions maxRetries retries ls =
     (if retries \<le> maxRetries
      then
        (let h1 = adjust_strategy (heap ls) enhancedOptions retries;
             arg = options_value h1 enhancedOptions
         in case attempt_outcome (runFullTest retries website arg) of
              Inr res \<Rightarrow> (Some res, ls\<lparr> heap := h1, calls := calls ls @ [arg] \<rparr>)
            | Inl e \<Rightarrow>
                (let ls' = catch_error ls h1 arg enhancedOptions maxRetries retries e
                 in if retries < maxRetries
                    then attempt_loop runFullTest website enhancedOptions maxRetries (retries + 1)
                           (ls'\<lparr> waits := waits ls' @ [(retries + 1) * 5000] \<rparr>)
                    else (None, ls')))
      else (None, ls))"
  by pat_completeness auto
termination
  by (relation "measure (\<lambda>(rft, website, enh, maxRetries, retries, ls). Suc maxRetries - retries)") auto

declare attempt_loop.simps [simp del]

text \<open>The calls a job makes on the \<open>ResourceManager\<close>, in order.\<close>

datatype limiter_call = AcquireCall | ReleaseCall

record job_trace =
  runs :: "options_json list"
  backoffs :: "nat list"
  limiter_calls :: "limiter_call list"

definition no_trace :: job_trace where
  "no_trace = \<lparr> runs = [], backoffs = [], limiter_calls = [] \<rparr>"

text \<open>What a job works on: the store of options objects, the cache and the disk.\<close>

record world =
  objects :: store
  resultCache :: ResultCache
  disk :: filesystem

text \<open>
  \<open>testWebsite(website, options, resourceManager, resultCache, maxRetries)\<close>, where
  \<open>options\<close> is the address of the caller's options object. \<open>t_has\<close>, \<open>t_get\<close> and
  \<open>t_set\<close> are the clock readings of the three cache calls. The result is the returned
  value or the exception that leaves the function, the world afterwards, and the trace.
  \<open>await resourceManager.acquire()\<close> is a call in the trace; the job goes on when the
  manager has resolved the promise.
\<close>

definition testWebsite ::
  "platform \<Rightarrow> (nat \<Rightarrow> string \<Rightarrow> options_json \<Rightarrow> exn + full_result) \<Rightarrow> int \<Rightarrow> int \<Rightarrow> int
    \<Rightarrow> string \<Rightarrow> nat \<Rightarrow> nat \<Rightarrow> world \<Rightarrow> (exn + job_value) \<times> world \<times> job_trace" where
  "testWebsite pf runFullTest t_has t_get t_set website options maxRetries w =
     (case has pf (resultCache w) (disk w) t_has website (options_value (objects w) options) of
        (Inl e, c, d) \<Rightarrow> (Inl e, w\<lparr> resultCache := c, disk := d \<rparr>, no_trace)
      | (Inr True, c, d) \<Rightarrow>
          (case get pf c d t_get website (options_value (objects w) options) of
             (Inl e, c', d') \<Rightarrow> (Inl e, w\<lparr> resultCache := c', disk := d' \<rparr>, no_trace)
           | (Inr None, c', d') \<Rightarrow> (Inr NullValue, w\<lparr> resultCache := c', disk := d' \<rparr>, no_trace)
           | (Inr (Some r), c', d') \<Rightarrow>
               (Inr (Results r), w\<lparr> resultCache := c', disk := d' \<rparr>, no_trace))
      | (Inr False, c, d) \<Rightarrow>
          (case spread_options (objects w) options of
             (enhancedOptions, h0) \<Rightarrow>
               (case attempt_loop runFullTest website enhancedOptions maxRetries 0
                       \<lparr> heap = assign_screenshotOptions h0 enhancedOptions, lastError = None,
                         calls = [], waits = [] \<rparr> of
                  (Some res, ls) \<Rightarrow>
                    (case set_result pf c d t_set website (options_value (heap ls) options) res of
                       (c', d') \<Rightarrow>
                         (Inr (Results res),
                          \<lparr> objects = heap ls, resultCache = c', disk = d' \<rparr>,
                          \<lparr> runs = calls ls, backoffs = waits ls,
                            limiter_calls = [AcquireCall, ReleaseCall] \<rparr>))
                | (None, ls) \<Rightarrow>
                    (Inr (Failed website
                            (case lastError ls of Some e \<Rightarrow> message e | None \<Rightarrow> unknown_error)),
                     \<lparr> objects = heap ls, resultCache = c, disk = d \<rparr>,
                     \<lparr> runs = calls ls, backoffs = waits ls,
                       limiter_calls = [AcquireCall, ReleaseCall] \<rparr>))))"

text \<open>
  The \<open>waitUntil\<close> that a call of \<open>runFullTest\<close> is given, and the condition that an
  address is a live options object of the store.
\<close>

definition waitUntil_of :: "options_json \<Rightarrow> jsval" where
  "waitUntil_of ov =
     (case json_screenshotOptions ov of None \<Rightarrow> JUndefined | Some ps \<Rightarrow> get_prop ''waitUntil'' ps)"

definition valid_options :: "store \<Rightarrow> nat \<Rightarrow> bool" where
  "valid_options st a =
     (a < length (option_objs st)
      \<and> (case screenshotOptions (option_objs st ! a) of
            None \<Rightarrow> True
          | Some r \<Rightarrow> r < length (screenshot_objs st)))"

section \<open>The batch: \<open>loadConfig\<close> and \<open>optimizedBatchTest\<close>\<close>

definition loadConfig :: "filesystem \<Rightarrow> string \<Rightarrow> config" where
  "loadConfig fs configPath =
     (case readFileSync fs configPath of
        Inl e \<Rightarrow> \<lparr> websites = Some [], testOptions = None \<rparr>
      | Inr NotJson \<Rightarrow> \<lparr> websites = Some [], testOptions = None \<rparr>
      | Inr (ConfigJson c) \<Rightarrow> c
      | Inr (CacheJson d) \<Rightarrow> \<lparr> websites = None, testOptions = None \<rparr>)"

text \<open>
  The messages of the \<open>TypeError\<close>s that the job's callback raises itself, when it reads
  \<open>results.error\<close> of \<open>null\<close> and \<open>results.lighthouse.scores\<close> of a value without
  \<open>lighthouse\<close>.
\<close>

definition null_error_message :: string where
  "null_error_message =
     ''Cannot read properties of null (reading '' @ [CHR 0x27] @ ''error'' @ [CHR 0x27] @ '')''"

definition undefined_scores_message :: string where
  "undefined_scores_message =
     ''Cannot read properties of undefined (reading '' @ [CHR 0x27] @ ''scores'' @ [CHR 0x27] @ '')''"

text \<open>
  The callback of \<open>config.websites.map\<close> after \<open>await testWebsite(...)\<close>: the one entry
  it pushes, from what \<open>testWebsite\<close> returned or threw. Compressing the reports
  absorbs its own errors and pushes nothing.
\<close>

definition job_entry :: "string \<Rightarrow> exn + job_value \<Rightarrow> batch_entry" where
  "job_entry website out =
     (case out of
        Inl e \<Rightarrow> failure_entry website (message e)
      | Inr NullValue \<Rightarrow> failure_entry website null_error_message
      | Inr (Failed u msg) \<Rightarrow>
          if msg \<noteq> [] then failure_entry website msg
          else failure_entry website undefined_scores_message
      | Inr (Results res) \<Rightarrow>
          (case lighthouse res of
             None \<Rightarrow> failure_entry website undefined_scores_message
           | Some report \<Rightarrow>
               success_entry website (lighthouse_scores report) (filePath report)
                 (results_screenshotPath res)))"

text \<open>
  The jobs run concurrently and each pushes its entry when it is done. \<open>finish\<close> gives
  the time at which each job gets to its push; the jobs push in the order of these
  times, and jobs with the same time in the order of their dispatch.
\<close>

definition completion_order :: "nat list \<Rightarrow> nat list" where
  "completion_order finish = map snd (sort_key fst (zip finish [0..<length finish]))"

definition batchResults :: "string list \<Rightarrow> (exn + job_value) list \<Rightarrow> nat list \<Rightarrow> batch_entry list" where
  "batchResults ws outcomes finish =
     map (\<lambda>i. job_entry (ws ! i) (outcomes ! i)) (completion_order finish)"

datatype batch_return = BatchReturn (return_totalWebsites: nat) (return_results: "batch_entry list")

text \<open>
  \<open>optimizedBatchTest\<close>: what it returns (\<open>None\<close> for the bare \<open>return\<close>) and the
  websites for which it calls \<open>testWebsite\<close>. \<open>outcomes\<close> are what these calls give.
\<close>

definition optimizedBatchTest ::
  "filesystem \<Rightarrow> string \<Rightarrow> (exn + job_value) list \<Rightarrow> nat list \<Rightarrow> batch_return option \<times> string list" where
  "optimizedBatchTest fs configPath outcomes finish =
     (case websites (loadConfig fs configPath) of
        None \<Rightarrow> (None, [])
      | Some ws \<Rightarrow>
          if length ws = 0 then (None, [])
          else (Some (BatchReturn (length ws) (batchResults ws outcomes finish)), ws))"

section \<open>Concrete inputs\<close>

text \<open>
  A stand-in for the two library functions, for concrete runs only: the serialisation
  keeps the URL and the names of the properties of the options in their order, and the
  digest reverses its input. Every theorem below that mentions a platform holds for all
  of them.
\<close>

definition names_of :: "props \<Rightarrow> string" where
  "names_of ps = concat (map (\<lambda>kv. fst kv @ '','') ps)"

definition property_names :: "options_json \<Rightarrow> string" where
  "property_names ov =
     names_of (json_before ov)
     @ (case json_screenshotOptions ov of
          None \<Rightarrow> []
        | Some ps \<Rightarrow> ''screenshotOptions{'' @ names_of ps @ ''},'')
     @ names_of (json_after ov)"

definition stub_platform :: platform where
  "stub_platform = \<lparr> md5_hex = rev, JSON_stringify = (\<lambda>u options. u @ ''?'' @ property_names options) \<rparr>"

text \<open>An empty disk without faults, and a disk on which every \<open>unlinkSync\<close> throws.\<close>

definition healthy_disk :: filesystem where
  "healthy_disk = \<lparr> files = (\<lambda>p. None), faulty = (\<lambda>c p. False) \<rparr>"

text \<open>The constructor of \<open>ResultCache\<close> on an empty cache directory.\<close>

definition new_ResultCache :: "int \<Rightarrow> ResultCache" where
  "new_ResultCache duration = \<lparr> cache = (\<lambda>k. None), cacheDuration = duration, cacheDir = ''cache'' \<rparr>"

text \<open>The \<open>testOptions\<close> of the README's \<open>websites.json\<close>, at address 0.\<close>

definition sample_options :: store where
  "sample_options =
     \<lparr> option_objs =
         [\<lparr> props_before = [(''outputFormat'', JStr ''html''),
                             (''categories'', JArr [JStr ''performance'', JStr ''accessibility''])],
            screenshotOptions = Some 0,
            props_after = [] \<rparr>],
       screenshot_objs = [[(''fullPage'', JBool True), (''deviceScaleFactor'', JNum 2)]] \<rparr>"

definition sample_result :: full_result where
  "sample_result =
     \<lparr> lighthouse = Some (LighthouseReport ''reports/a.example/lighthouse.html''
                            (Some ''reports/a.example/summary.json'') [(''performance'', 80)]),
       results_screenshotPath = Some ''reports/a.example/screenshot.png'' \<rparr>"

text \<open>A full test that throws on its first \<open>k\<close> calls and then succeeds.\<close>

definition fails_then_succeeds :: "nat \<Rightarrow> nat \<Rightarrow> string \<Rightarrow> options_json \<Rightarrow> exn + full_result" where
  "fails_then_succeeds k i website ov =
     (if i < k then Inl (Error ''net::ERR_CONNECTION_RESET'') else Inr sample_result)"

definition fresh_world :: world where
  "fresh_world = \<lparr> objects = sample_options, resultCache = new_ResultCache 3600000, disk = healthy_disk \<rparr>"

text \<open>
  A cache that holds an entry of time 0 for the sample job, with its file on a disk
  where \<open>unlinkSync\<close> throws.
\<close>

definition sample_key :: string where
  "sample_key = generateKey stub_platform (new_ResultCache 3600000) ''https://a.example''
                  (options_value sample_options 0)"

definition undeletable_world :: world where
  "undeletable_world =
     \<lparr> objects = sample_options,
       resultCache = (new_ResultCache 3600000)\<lparr> cache := (\<lambda>k. if k = sample_key then Some 0 else None) \<rparr>,
       disk = \<lparr> files = (\<lambda>p. if p = cacheFile (new_ResultCache 3600000) sample_key
                             then Some (CacheJson \<lparr> timestamp = 0, result = sample_result \<rparr>)
                             else None),
                faulty = (\<lambda>c p. c = Unlink) \<rparr> \<rparr>"

text \<open>
  The world after \<open>set\<close> stored the sample result at time 0 on a full disk: the
  entry is in the map and its file was not written.
\<close>

definition full_disk :: filesystem where
  "full_disk = \<lparr> files = (\<lambda>p. None), faulty = (\<lambda>c p. c = WriteFile) \<rparr>"

definition unwritten_world :: world where
  "unwritten_world =
     (case set_result stub_platform (new_ResultCache 3600000) full_disk 0 ''https://a.example''
             (options_value sample_options 0) sample_result of
        (c, d) \<Rightarrow> \<lparr> objects = sample_options, resultCache = c, disk = d \<rparr>)"

text \<open>
  A store with three options objects: the sample at address 0, the same properties with
  \<open>screenshotOptions\<close> first at address 1, and a second object with the value of the
  sample at address 2.
\<close>

definition twin_options :: store where
  "twin_options =
     \<lparr> option_objs =
         [\<lparr> props_before = [(''outputFormat'', JStr ''html''),
                             (''categories'', JArr [JStr ''performance'', JStr ''accessibility''])],
            screenshotOptions = Some 0,
            props_after = [] \<rparr>,
          \<lparr> props_before = [],
            screenshotOptions = Some 0,
            props_after = [(''outputFormat'', JStr ''html''),
                            (''categories'', JArr [JStr ''performance'', JStr ''accessibility''])] \<rparr>,
          \<lparr> props_before = [(''outputFormat'', JStr ''html''),
                             (''categories'', JArr [JStr ''performance'', JStr ''accessibility''])],
            screenshotOptions = Some 1,
            props_after = [] \<rparr>],
       screenshot_objs = [[(''fullPage'', JBool True), (''deviceScaleFactor'', JNum 2)],
                          [(''fullPage'', JBool True), (''deviceScaleFactor'', JNum 2)]] \<rparr>"

definition twin_world :: world where
  "twin_world = \<lparr> objects = twin_options, resultCache = new_ResultCache 3600000, disk = healthy_disk \<rparr>"

text \<open>The cache and the disk after \<open>set\<close> stored the sample result at time 0.\<close>

definition after_store :: "ResultCache \<times> filesystem" where
  "after_store = set_result stub_platform (new_ResultCache 3600000) healthy_disk 0
                   ''https://a.example'' (options_value sample_options 0) sample_result"

section \<open>The audit loop of \<open>runLighthouseTest\<close>\<close>

text \<open>
  \<open>lighthouseOptions.settings\<close>, as far as the loop replaces it: the audits to skip
  and the throttling.
\<close>

record lighthouse_settings =
  skipAudits :: "string list"
  throttlingMethod :: string
  throttling :: "(string \<times> int) list"

definition initial_settings :: lighthouse_settings where
  "initial_settings =
     \<lparr> skipAudits = [''uses-http2''], throttlingMethod = ''simulate'',
       throttling = [(''rttMs'', 40), (''throughputKbps'', 10240), (''cpuSlowdownMultiplier'', 1),
                     (''requestLatencyMs'', 0), (''downloadThroughputKbps'', 0),
                     (''uploadThroughputKbps'', 0)] \<rparr>"

text \<open>The settings after an error whose message has the navigation marker.\<close>

definition relaxed_settings :: "lighthouse_settings \<Rightarrow> lighthouse_settings" where
  "relaxed_settings s =
     s\<lparr> skipAudits := [''uses-http2'', ''screenshot-thumbnails'', ''full-page-screenshot''],
        throttlingMethod := ''provided'',
        throttling := [(''rttMs'', 0), (''throughputKbps'', 0), (''cpuSlowdownMultiplier'', 1)] \<rparr>"

text \<open>
  The loop \<open>while (retryCount <= maxRetries)\<close> with \<open>maxRetries = 2\<close>. The auditor
  \<open>lh\<close> is a parameter: the outcome of the call made with \<open>retryCount = i\<close> under
  the settings it is given; a returned value may be \<open>undefined\<close> (\<open>None\<close>). The loop
  gives \<open>runnerResult\<close>, or the error thrown when the retries are used up, and the
  settings of each call. The restart of Chrome between attempts absorbs its errors and
  is left out.
\<close>

function audit_loop ::
  "(nat \<Rightarrow> lighthouse_settings \<Rightarrow> exn + 'r option) \<Rightarrow> nat \<Rightarrow> lighthouse_settings
     \<Rightarrow> lighthouse_settings list \<Rightarrow> (exn + 'r option) \<times> lighthouse_settings list" where
  "audit_loop lh retryCount settings used =
     (if retryCount \<le> 2
      then (case lh retryCount settings of
              Inr runnerResult \<Rightarrow> (Inr runnerResult, used @ [settings])
            | Inl lhError \<Rightarrow>
                (let settings' = (if message_includes (message lhError) ''start lh:driver:navigate''
                                  then relaxed_settings settings else settings)
                 in if retryCount < 2
                    then audit_loop lh (retryCount + 1) settings' (used @ [settings])
                    else (Inl lhError, used @ [settings])))
      else (Inr None, used))"
  by pat_completeness auto
termination
  by (relation "measure (\<lambda>(lh, retryCount, settings, used). 3 - retryCount)") auto

declare audit_loop.simps [simp del]

definition no_audit_result :: string where
  "no_audit_result = ''Lighthouse'' @ [CHR 0xE5, CHR 0xAE, CHR 0xA1, CHR 0xE8, CHR 0xAE, CHR 0xA1, CHR 0xE6, CHR 0x9C, CHR 0xAA, CHR 0xE8, CHR 0xBF, CHR 0x94, CHR 0xE5, CHR 0x9B, CHR 0x9E, CHR 0xE7, CHR 0xBB, CHR 0x93, CHR 0xE6, CHR 0x9E, CHR 0x9C]"

text \<open>The loop and the test \<open>if (!runnerResult)\<close> after it.\<close>

definition run_audit ::
  "(nat \<Rightarrow> lighthouse_settings \<Rightarrow> exn + 'r option) \<Rightarrow> (exn + 'r) \<times> lighthouse_settings list" where
  "run_audit lh =
     (case audit_loop lh 0 initial_settings [] of
        (Inl e, used) \<Rightarrow> (Inl e, used)
      | (Inr None, used) \<Rightarrow> (Inl (Error no_audit_result), used)
      | (Inr (Some runnerResult), used) \<Rightarrow> (Inr runnerResult, used))"

section \<open>Invariants\<close>

text \<open>The invariant of the limiter: the count, the cap, and the queue of waiting jobs.\<close>

definition limiter_inv :: "limiter_state \<Rightarrow> bool" where
  "limiter_inv s \<longleftrightarrow>
     running (manager s) = int (in_flight s)
     \<and> running (manager s) \<le> int (maxConcurrent (manager s))
     \<and> distinct (queue (manager s))
     \<and> (\<forall>j \<in> set (queue (manager s)). j < length (phases s) \<and> phases s ! j = Waiting)"

text \<open>What the store looks like during the loop, relative to the caller's store.\<close>

definition extends :: "store \<Rightarrow> store \<Rightarrow> jsval \<Rightarrow> bool" where
  "extends h0 h wu \<longleftrightarrow>
     (\<exists>ob p. option_objs h = option_objs h0 @ [ob]
        \<and> screenshotOptions ob = Some (length (screenshot_objs h0))
        \<and> screenshot_objs h = screenshot_objs h0 @ [p]
        \<and> get_prop ''waitUntil'' p = wu)"

text \<open>
  A list of some \<open>x\<close> followed by some \<open>y\<close>, with the current value: \<open>x\<close> only while no
  \<open>y\<close> has been listed.
\<close>

definition mono_trace :: "'a \<Rightarrow> 'a \<Rightarrow> 'a list \<Rightarrow> 'a \<Rightarrow> bool" where
  "mono_trace x y xs cur \<longleftrightarrow>
     (cur = x \<and> (\<exists>a. xs = replicate a x)) \<or> (cur = y \<and> (\<exists>a b. xs = replicate a x @ replicate b y))"

text \<open>The invariant of the retry loop, relative to the caller's store \<open>h0\<close>.\<close>

definition loop_inv :: "store \<Rightarrow> attempt_state \<Rightarrow> bool" where
  "loop_inv h0 ls \<longleftrightarrow>
     (\<exists>wu. extends h0 (heap ls) wu
        \<and> mono_trace (JStr ''domcontentloaded'') (JStr ''load'') (map waitUntil_of (calls ls)) wu)"

text \<open>What a job leaves of the store and what it passed to the full test.\<close>

definition job_inv :: "store \<Rightarrow> store \<Rightarrow> options_json list \<Rightarrow> bool" where
  "job_inv h0 h passed \<longleftrightarrow>
     (h = h0 \<and> passed = [])
     \<or> (\<exists>wu. extends h0 h wu
           \<and> mono_trace (JStr ''domcontentloaded'') (JStr ''load'') (map waitUntil_of passed) wu)"

section \<open>Properties of the report aggregation\<close>

lemma foldl_add_sum_list:
  "foldl (\<lambda>acc r. acc + f r) (a::real) xs = a + sum_list (map f xs)"
  by (induction xs arbitrary: a) simp_all

lemma set_foldl_set_add: "set (foldl set_add cs ks) = set cs \<union> set ks"
  by (induction ks arbitrary: cs) (auto simp: set_add_def)

lemma set_all_categories_gen:
  "set (foldl (\<lambda>categories result. foldl set_add categories (object_keys result)) cs rs)
     = set cs \<union> (\<Union>r \<in> set rs. set (object_keys r))"
  by (induction rs arbitrary: cs) (auto simp: set_foldl_set_add)

lemma set_all_categories: "set (all_categories rs) = (\<Union>r \<in> set rs. set (object_keys r))"
  by (simp add: all_categories_def set_all_categories_gen)

lemma score_at_keys: "score_at r c \<noteq> None \<longleftrightarrow> c \<in> set (object_keys r)"
  by (cases "scores r") (simp_all add: score_at_def object_keys_def map_of_eq_None_iff del: not_None_eq)

lemma map_of_tabulate:
  "map_of (map (\<lambda>k. (k, f k)) ks) k = (if k \<in> set ks then Some (f k) else None)"
  by (induction ks) auto

lemma contributions_filter:
  "contributions rs c
     = map (\<lambda>r. case score_at r c of Some v \<Rightarrow> v | None \<Rightarrow> 0) (filter (\<lambda>r. score_at r c \<noteq> None) rs)"
  by (induction rs) (auto simp: contributions_def List.map_filter_simps split: option.splits)

lemma contributions_successful:
  "contributions (filter (\<lambda>r. scores r \<noteq> None) rs) c = contributions rs c"
  by (induction rs) (auto simp: contributions_def List.map_filter_simps score_at_def split: option.splits)

lemma category_average_mean:
  "category_average rs c
     = (if contributions rs c = [] then 0
        else sum_list (contributions rs c) / real (length (contributions rs c)))"
  by (simp add: category_average_def Let_def contributions_filter foldl_add_sum_list)

lemma contributions_empty_iff:
  "contributions rs c = [] \<longleftrightarrow> c \<notin> set (all_categories rs)"
proof -
  have "contributions rs c = [] \<longleftrightarrow> (\<forall>r \<in> set rs. \<not> score_at r c \<noteq> None)"
    by (simp add: contributions_filter filter_empty_conv del: not_None_eq)
  also have "\<dots> \<longleftrightarrow> (\<forall>r \<in> set rs. c \<notin> set (object_keys r))"
    by (simp only: score_at_keys)
  also have "\<dots> \<longleftrightarrow> c \<notin> set (all_categories rs)"
    by (simp add: set_all_categories)
  finally show ?thesis .
qed

lemma average_of_spec:
  "average_of (generateSummaryReport rs t) c = spec_category_mean rs c"
proof -
  let ?ok = "filter (\<lambda>r. scores r \<noteq> None) rs"
  show ?thesis
  proof (cases "?ok = []")
    case True
    then have "contributions ?ok c = []"
      by (simp add: contributions_def List.map_filter_simps)
    then have "contributions rs c = []"
      by (simp only: contributions_successful)
    with True show ?thesis
      by (simp add: average_of_def generateSummaryReport_def spec_category_mean_def)
  next
    case False
    have "average_of (generateSummaryReport rs t) c
            = (if c \<in> set (all_categories ?ok) then Some (category_average ?ok c) else None)"
      using False by (simp add: average_of_def generateSummaryReport_def Let_def map_of_tabulate)
    also have "\<dots> = spec_category_mean ?ok c"
      by (simp add: spec_category_mean_def Let_def category_average_mean contributions_empty_iff)
    also have "\<dots> = spec_category_mean rs c"
      unfolding spec_category_mean_def contributions_successful ..
    finally show ?thesis .
  qed
qed

lemma contributions_failure:
  "contributions (xs @ failure_entry u m # ys) c = contributions (xs @ ys) c"
  by (simp add: contributions_def List.map_filter_def score_at_def failure_entry_def)

text \<open>
  C8. Every category's \<open>averageScores\<close> value is the arithmetic mean of that category's
  scores over the results that have scores and have the category; a result that lacks
  the category, and a failed target, add nothing to it. A failed target (an
  \<open>{url, error}\<close> entry with a non-empty message) still counts in \<open>totalWebsites\<close> and
  \<open>failedTests\<close>. Three targets, one failed, performance 80 and 100: the mean is 90 and
  \<open>failedTests\<close> is 1.
\<close>

theorem summary_means_exclude_failures:
  "average_of (generateSummaryReport rs t) c = spec_category_mean rs c
   \<and> totalWebsites (generateSummaryReport rs t) = length rs
   \<and> (m \<noteq> [] \<longrightarrow>
         average_of (generateSummaryReport (xs @ failure_entry u m # ys) t) c
           = average_of (generateSummaryReport (xs @ ys) t) c
       \<and> totalWebsites (generateSummaryReport (xs @ failure_entry u m # ys) t)
           = Suc (totalWebsites (generateSummaryReport (xs @ ys) t))
       \<and> failedTests (generateSummaryReport (xs @ failure_entry u m # ys) t)
           = Suc (failedTests (generateSummaryReport (xs @ ys) t)))
   \<and> average_of (generateSummaryReport
          [success_entry ''a'' [(''performance'', 80)] ''a.html'' None,
           failure_entry ''b'' ''timeout'',
           success_entry ''c'' [(''performance'', 100)] ''c.html'' None] t) ''performance''
         = Some 90
   \<and> failedTests (generateSummaryReport
          [success_entry ''a'' [(''performance'', 80)] ''a.html'' None,
           failure_entry ''b'' ''timeout'',
           success_entry ''c'' [(''performance'', 100)] ''c.html'' None] t) = 1"
proof (intro conjI impI)
  show "average_of (generateSummaryReport rs t) c = spec_category_mean rs c"
    by (rule average_of_spec)
  show "totalWebsites (generateSummaryReport rs t) = length rs"
    by (simp add: generateSummaryReport_def Let_def)
  show "average_of (generateSummaryReport (xs @ failure_entry u m # ys) t) c
          = average_of (generateSummaryReport (xs @ ys) t) c"
    by (simp add: average_of_spec spec_category_mean_def contributions_failure)
  show "totalWebsites (generateSummaryReport (xs @ failure_entry u m # ys) t)
          = Suc (totalWebsites (generateSummaryReport (xs @ ys) t))"
    by (simp add: generateSummaryReport_def Let_def)
  show "failedTests (generateSummaryReport (xs @ failure_entry u m # ys) t)
          = Suc (failedTests (generateSummaryReport (xs @ ys) t))" if "m \<noteq> []"
    using that by (simp add: generateSummaryReport_def Let_def failure_entry_def truthy_string_def)
  show "average_of (generateSummaryReport
          [success_entry ''a'' [(''performance'', 80)] ''a.html'' None,
           failure_entry ''b'' ''timeout'',
           success_entry ''c'' [(''performance'', 100)] ''c.html'' None] t) ''performance''
         = Some 90"
    by (simp add: average_of_spec spec_category_mean_def contributions_def List.map_filter_def
        score_at_def success_entry_def failure_entry_def)
  show "failedTests (generateSummaryReport
          [success_entry ''a'' [(''performance'', 80)] ''a.html'' None,
           failure_entry ''b'' ''timeout'',
           success_entry ''c'' [(''performance'', 100)] ''c.html'' None] t) = 1"
    by (simp add: generateSummaryReport_def Let_def success_entry_def failure_entry_def truthy_string_def)
qed

theorem summary_means_exclude_failures_witness:
  "''timeout'' \<noteq> []
   \<and> average_of (generateSummaryReport
         ([success_entry ''a'' [(''performance'', 80), (''seo'', 70)] ''a.html'' None]
            @ failure_entry ''b'' ''timeout''
            # [success_entry ''c'' [(''performance'', 100)] ''c.html'' None]) 12) ''seo''
       = Some 70
   \<and> failedTests (generateSummaryReport
         ([success_entry ''a'' [(''performance'', 80), (''seo'', 70)] ''a.html'' None]
            @ failure_entry ''b'' ''timeout''
            # [success_entry ''c'' [(''performance'', 100)] ''c.html'' None]) 12) = 1"
  using summary_means_exclude_failures
    [of "[success_entry ''a'' [(''performance'', 80), (''seo'', 70)] ''a.html'' None]
           @ failure_entry ''b'' ''timeout''
           # [success_entry ''c'' [(''performance'', 100)] ''c.html'' None]"
        12 "''seo''" "''timeout''"
        "[success_entry ''a'' [(''performance'', 80), (''seo'', 70)] ''a.html'' None]"
        "''b''"
        "[success_entry ''c'' [(''performance'', 100)] ''c.html'' None]"]
  by (simp add: spec_category_mean_def contributions_def List.map_filter_def score_at_def
      generateSummaryReport_def Let_def success_entry_def failure_entry_def truthy_string_def)

section \<open>Properties of the limiter\<close>

lemma count_list_update:
  "i < length xs \<Longrightarrow>
     length (filter P (xs[i := v])) + (if P (xs ! i) then 1 else 0)
       = length (filter P xs) + (if P v then 1 else 0)"
proof (induction xs arbitrary: i)
  case Nil
  then show ?case by simp
next
  case (Cons x xs)
  show ?case
  proof (cases i)
    case 0
    then show ?thesis by simp
  next
    case (Suc k)
    with Cons.prems have "k < length xs" by simp
    from Cons.IH [OF this] Suc show ?thesis by simp
  qed
qed

lemma limiter_inv_start: "limiter_inv (start cap n)"
  by (simp add: limiter_inv_def start_def new_ResourceManager_def in_flight_def)

lemma maxConcurrent_step: "step s e = Some s' \<Longrightarrow> maxConcurrent (manager s') = maxConcurrent (manager s)"
  by (cases e) (auto simp: acquire_def release_def split: if_splits list.splits)

lemma limiter_inv_acquire:
  assumes inv: "limiter_inv s" and st: "step s (Acquire i) = Some s'"
  shows "limiter_inv s'"
proof -
  from st have i: "i < length (phases s)" and ns: "phases s ! i = NotStarted"
    by (auto split: if_splits)
  from count_list_update [OF i, of "\<lambda>p. p = Holding"] ns
  have cnt: "\<And>v. length (filter (\<lambda>p. p = Holding) ((phases s)[i := v]))
               = length (filter (\<lambda>p. p = Holding) (phases s)) + (if v = Holding then 1 else 0)"
    by simp
  from inv ns have notq: "i \<notin> set (queue (manager s))"
    by (auto simp: limiter_inv_def)
  have keep: "(phases s)[i := v] ! j = Waiting \<and> j < length (phases s)"
    if "j \<in> set (queue (manager s))" for j v
  proof -
    from that notq have "j \<noteq> i" by auto
    moreover from inv that have "j < length (phases s) \<and> phases s ! j = Waiting"
      by (simp add: limiter_inv_def)
    ultimately show ?thesis by simp
  qed
  show ?thesis
  proof (cases "running (manager s) < int (maxConcurrent (manager s))")
    case True
    with st i ns have s': "s' = \<lparr> manager = (manager s)\<lparr> running := running (manager s) + 1 \<rparr>,
                                  phases = (phases s)[i := Holding] \<rparr>"
      by (simp add: acquire_def)
    from inv True notq keep show ?thesis
      by (simp add: s' limiter_inv_def in_flight_def cnt)
  next
    case False
    with st i ns have s': "s' = \<lparr> manager = (manager s)\<lparr> queue := queue (manager s) @ [i] \<rparr>,
                                  phases = (phases s)[i := Waiting] \<rparr>"
      by (simp add: acquire_def)
    from inv False notq i keep show ?thesis
      by (simp add: s' limiter_inv_def in_flight_def cnt)
  qed
qed

lemma limiter_inv_release:
  assumes inv: "limiter_inv s" and st: "step s (Release i) = Some s'"
  shows "limiter_inv s'"
proof -
  from st have i: "i < length (phases s)" and h: "phases s ! i = Holding"
    by (auto split: if_splits)
  let ?ph = "(phases s)[i := Released]"
  from count_list_update [OF i, of "\<lambda>p. p = Holding" Released] h
  have cnt: "length (filter (\<lambda>p. p = Holding) ?ph) + 1
               = length (filter (\<lambda>p. p = Holding) (phases s))"
    by simp
  show ?thesis
  proof (cases "queue (manager s)")
    case Nil
    with st i h have s': "s' = \<lparr> manager = (manager s)\<lparr> running := running (manager s) - 1 \<rparr>,
                                  phases = ?ph \<rparr>"
      by (simp add: release_def)
    from inv Nil cnt show ?thesis
      by (auto simp: s' limiter_inv_def in_flight_def)
  next
    case (Cons j rest)
    with st i h have s': "s' = \<lparr> manager = (manager s)\<lparr> queue := rest \<rparr>,
                                  phases = ?ph[j := Holding] \<rparr>"
      by (simp add: release_def)
    from inv Cons have j: "j < length (phases s)" and w: "phases s ! j = Waiting"
      and jr: "j \<notin> set rest" and dr: "distinct rest"
      and rest: "\<forall>k \<in> set rest. k < length (phases s) \<and> phases s ! k = Waiting"
      by (auto simp: limiter_inv_def)
    from w h have ji: "j \<noteq> i" by auto
    from j have j': "j < length ?ph" by simp
    from ji w have "?ph ! j \<noteq> Holding" by simp
    with count_list_update [OF j', of "\<lambda>p. p = Holding" Holding]
    have "length (filter (\<lambda>p. p = Holding) (?ph[j := Holding]))
            = length (filter (\<lambda>p. p = Holding) ?ph) + 1"
      by simp
    with cnt have same: "length (filter (\<lambda>p. p = Holding) (?ph[j := Holding]))
                           = length (filter (\<lambda>p. p = Holding) (phases s))"
      by simp
    have "\<forall>k \<in> set rest. k < length (?ph[j := Holding]) \<and> ?ph[j := Holding] ! k = Waiting"
    proof
      fix k assume k: "k \<in> set rest"
      with rest have kl: "k < length (phases s)" and kw: "phases s ! k = Waiting" by auto
      from k jr have kj: "k \<noteq> j" by auto
      from kw h have ki: "k \<noteq> i" by auto
      from kl kj ki kw show "k < length (?ph[j := Holding]) \<and> ?ph[j := Holding] ! k = Waiting"
        by simp
    qed
    with inv dr same show ?thesis
      by (simp add: s' limiter_inv_def in_flight_def)
  qed
qed

lemma limiter_inv_step: "limiter_inv s \<Longrightarrow> step s e = Some s' \<Longrightarrow> limiter_inv s'"
  by (cases e) (auto intro: limiter_inv_acquire limiter_inv_release)

lemma limiter_inv_run: "limiter_inv s \<Longrightarrow> run s es = Some s' \<Longrightarrow> limiter_inv s'"
  by (induction es arbitrary: s) (auto split: option.splits dest: limiter_inv_step)

lemma maxConcurrent_run: "run s es = Some s' \<Longrightarrow> maxConcurrent (manager s') = maxConcurrent (manager s)"
  by (induction es arbitrary: s) (auto split: option.splits dest: maxConcurrent_step)

text \<open>
  C2. In every state that a batch with cap \<open>C\<close> reaches, the number of jobs between a
  resolved \<open>acquire\<close> and their \<open>release\<close> is the manager's \<open>running\<close> count and is at
  most \<open>C\<close>. \<open>acquire\<close> grants at once exactly while \<open>running\<close> is below the cap and
  otherwise appends the caller to the queue; \<open>release\<close> with a waiter hands the slot to
  the head of the queue and leaves \<open>running\<close> as it is.
\<close>

theorem limiter_never_exceeds_cap:
  assumes "run (start C n) es = Some s"
  shows "in_flight s \<le> C \<and> running (manager s) = int (in_flight s)
         \<and> acquire j m = (if running m < int (maxConcurrent m)
                           then (True, m\<lparr> running := running m + 1 \<rparr>)
                           else (False, m\<lparr> queue := queue m @ [j] \<rparr>))
         \<and> release (m\<lparr> queue := w # ws \<rparr>) = (Some w, m\<lparr> queue := ws \<rparr>)
         \<and> running (snd (release (m\<lparr> queue := w # ws \<rparr>))) = running m"
proof -
  from limiter_inv_run [OF limiter_inv_start assms] have inv: "limiter_inv s" .
  from maxConcurrent_run [OF assms] have "maxConcurrent (manager s) = C"
    by (simp add: start_def new_ResourceManager_def)
  with inv have "in_flight s \<le> C" and "running (manager s) = int (in_flight s)"
    by (auto simp: limiter_inv_def)
  then show ?thesis
    by (simp add: acquire_def release_def)
qed

theorem limiter_never_exceeds_cap_witness:
  "run (start 1 3) [Acquire 0, Acquire 1, Acquire 2, Release 0]
     = Some \<lparr> manager = \<lparr> maxConcurrent = 1, running = 1, queue = [2] \<rparr>,
              phases = [Released, Holding, Waiting] \<rparr>
   \<and> in_flight \<lparr> manager = \<lparr> maxConcurrent = 1, running = 1, queue = [2] \<rparr>,
                  phases = [Released, Holding, Waiting] \<rparr> \<le> 1"
proof -
  have r: "run (start 1 3) [Acquire 0, Acquire 1, Acquire 2, Release 0]
             = Some \<lparr> manager = \<lparr> maxConcurrent = 1, running = 1, queue = [2] \<rparr>,
                      phases = [Released, Holding, Waiting] \<rparr>"
    by (simp add: start_def new_ResourceManager_def acquire_def release_def numeral_3_eq_3)
  from limiter_never_exceeds_cap [OF r] r show ?thesis by simp
qed

section \<open>Properties of the result cache\<close>

text \<open>
  C4. On a store whose calls on the entry's file succeed: \<open>get\<close> after \<open>set\<close> returns
  the stored result, and leaves cache and disk as they are, while less than
  \<open>cacheDuration\<close> milliseconds have passed; from \<open>cacheDuration\<close> milliseconds on it
  returns \<open>null\<close>, and the entry is gone from the map and its file from the disk. (The
  file holds the JSON text of the result; reading it back is taken to give the result.)
\<close>

theorem cache_get_after_set:
  assumes "set_result pf c0 fs0 t u ov r = (c1, fs1)"
    and "\<not> faulty fs0 WriteFile (cacheFile c0 (generateKey pf c0 u ov))"
    and "\<not> faulty fs0 ReadFile (cacheFile c0 (generateKey pf c0 u ov))"
    and "\<not> faulty fs0 Unlink (cacheFile c0 (generateKey pf c0 u ov))"
  shows "(now - t < cacheDuration c0 \<longrightarrow> get pf c1 fs1 now u ov = (Inr (Some r), c1, fs1))
       \<and> (cacheDuration c0 \<le> now - t \<longrightarrow>
            (\<exists>c2 fs2. get pf c1 fs1 now u ov = (Inr None, c2, fs2)
               \<and> cache c2 (generateKey pf c0 u ov) = None
               \<and> files fs2 (cacheFile c0 (generateKey pf c0 u ov)) = None))"
  using assms
  by (auto simp: set_result_def get_def has_def Let_def generateKey_def cacheFile_def
      writeFileSync_def readFileSync_def unlinkSync_def existsSync_def split: if_splits)

theorem cache_get_after_set_witness:
  "fst (get stub_platform (fst after_store) (snd after_store) 1000 ''https://a.example''
          (options_value sample_options 0)) = Inr (Some sample_result)
   \<and> fst (get stub_platform (fst after_store) (snd after_store) 3600000 ''https://a.example''
            (options_value sample_options 0)) = Inr None"
proof -
  have s: "set_result stub_platform (new_ResultCache 3600000) healthy_disk 0 ''https://a.example''
             (options_value sample_options 0) sample_result = (fst after_store, snd after_store)"
    by (simp add: after_store_def)
  have f: "\<not> faulty healthy_disk c p" for c p
    by (simp add: healthy_disk_def)
  have d: "cacheDuration (new_ResultCache 3600000) = 3600000"
    by (simp add: new_ResultCache_def)
  from cache_get_after_set [OF s f f f, of 1000] cache_get_after_set [OF s f f f, of 3600000] d
  show ?thesis by auto
qed

section \<open>Properties of \<open>testWebsite\<close>: the retry budget\<close>

lemma attempt_loop_success_step:
  assumes "retries \<le> maxRetries"
    and "\<And>ov. attempt_outcome (rft retries website ov) = Inr r"
  shows "\<exists>ls'. attempt_loop rft website enh maxRetries retries ls = (Some r, ls')
           \<and> length (calls ls') = Suc (length (calls ls)) \<and> lastError ls' = lastError ls"
  using assms by (subst attempt_loop.simps) (simp add: Let_def)

lemma attempt_loop_fail_last:
  assumes "\<And>ov. attempt_outcome (rft maxRetries website ov) = Inl e"
  shows "\<exists>ls'. attempt_loop rft website enh maxRetries maxRetries ls = (None, ls')
           \<and> length (calls ls') = Suc (length (calls ls)) \<and> lastError ls' = Some e"
  using assms by (subst attempt_loop.simps) (simp add: Let_def catch_error_def)

lemma attempt_loop_fail_step:
  assumes "retries < maxRetries"
    and "\<And>ov. attempt_outcome (rft retries website ov) = Inl e"
  shows "\<exists>ls1. attempt_loop rft website enh maxRetries retries ls
             = attempt_loop rft website enh maxRetries (Suc retries) ls1
           \<and> length (calls ls1) = Suc (length (calls ls))"
  using assms by (subst attempt_loop.simps) (auto simp: Let_def catch_error_def)

lemma attempt_loop_succeeds:
  assumes fails: "\<And>i ov. i < K \<Longrightarrow> attempt_outcome (rft i website ov) = Inl (err i)"
    and ok: "\<And>ov. attempt_outcome (rft K website ov) = Inr r"
    and K: "K \<le> maxRetries"
  shows "retries \<le> K \<Longrightarrow> \<exists>ls'. attempt_loop rft website enh maxRetries retries ls = (Some r, ls')
           \<and> length (calls ls') = length (calls ls) + (K - retries) + 1"
proof (induction "K - retries" arbitrary: retries ls)
  case 0
  then have "retries = K" by simp
  with attempt_loop_success_step [of K maxRetries rft website r enh ls] K ok
  show ?case by auto
next
  case (Suc n)
  then have lt: "retries < K" by simp
  with K have "retries < maxRetries" by simp
  from attempt_loop_fail_step [OF this, of rft website "err retries" enh ls] fails [OF lt]
  obtain ls1 where eq: "attempt_loop rft website enh maxRetries retries ls
             = attempt_loop rft website enh maxRetries (Suc retries) ls1"
    and len: "length (calls ls1) = Suc (length (calls ls))"
    by blast
  from Suc.hyps(2) have "n = K - Suc retries" by simp
  from Suc.hyps(1) [OF this, of ls1] lt
  obtain ls' where "attempt_loop rft website enh maxRetries (Suc retries) ls1 = (Some r, ls')"
    and "length (calls ls') = length (calls ls1) + (K - Suc retries) + 1"
    by auto
  with eq len lt show ?case by auto
qed

lemma attempt_loop_exhausts:
  assumes fails: "\<And>i ov. i < K \<Longrightarrow> attempt_outcome (rft i website ov) = Inl (err i)"
    and K: "maxRetries < K"
  shows "retries \<le> maxRetries \<Longrightarrow> \<exists>ls'. attempt_loop rft website enh maxRetries retries ls = (None, ls')
           \<and> length (calls ls') = length (calls ls) + (maxRetries - retries) + 1
           \<and> lastError ls' = Some (err maxRetries)"
proof (induction "maxRetries - retries" arbitrary: retries ls)
  case 0
  then have "retries = maxRetries" by simp
  with attempt_loop_fail_last [of rft maxRetries website "err maxRetries" enh ls] fails [OF K]
  show ?case by auto
next
  case (Suc n)
  then have lt: "retries < maxRetries" by simp
  with K have "retries < K" by simp
  from attempt_loop_fail_step [OF lt, of rft website "err retries" enh ls] fails [OF this]
  obtain ls1 where eq: "attempt_loop rft website enh maxRetries retries ls
             = attempt_loop rft website enh maxRetries (Suc retries) ls1"
    and len: "length (calls ls1) = Suc (length (calls ls))"
    by blast
  from Suc.hyps(2) have "n = maxRetries - Suc retries" by simp
  from Suc.hyps(1) [OF this, of ls1] lt
  obtain ls' where "attempt_loop rft website enh maxRetries (Suc retries) ls1 = (None, ls')"
    and "length (calls ls') = length (calls ls1) + (maxRetries - Suc retries) + 1"
    and "lastError ls' = Some (err maxRetries)"
    by auto
  with eq len lt show ?case by auto
qed

lemma has_fresh: "has pf (new_ResultCache d) fs t u ov = (Inr False, new_ResultCache d, fs)"
  by (simp add: has_def new_ResultCache_def Let_def)

lemma testWebsite_first_attempt:
  assumes miss: "has pf (resultCache w) (disk w) t_has website (options_value (objects w) options)
                   = (Inr False, c, d)"
    and ok: "\<And>ov. attempt_outcome (rft 0 website ov) = Inr r"
  shows "fst (testWebsite pf rft t_has t_get t_set website options maxRetries w) = Inr (Results r)"
proof -
  obtain enh h0 where sp: "spread_options (objects w) options = (enh, h0)"
    by (cases "spread_options (objects w) options")
  from attempt_loop_success_step [of 0 maxRetries rft website r enh] ok
  obtain ls' where "attempt_loop rft website enh maxRetries 0
      \<lparr> heap = assign_screenshotOptions h0 enh, lastError = None, calls = [], waits = [] \<rparr> = (Some r, ls')"
    by force
  with miss sp show ?thesis
    by (simp add: testWebsite_def split: prod.splits)
qed

text \<open>
  C3. A job that misses the cache, whose full test fails on its first \<open>K\<close> calls (it
  throws, or returns no \<open>lighthouse\<close> result) and succeeds on the next: with
  \<open>maxRetries \<ge> K\<close> the job returns the results of that call after exactly \<open>K + 1\<close>
  calls; with \<open>maxRetries < K\<close> it returns \<open>{url, error}\<close> with the message of the last
  error after exactly \<open>maxRetries + 1\<close> calls.
\<close>

theorem retry_budget:
  assumes miss: "fst (has pf (resultCache w) (disk w) t_has website (options_value (objects w) options))
                   = Inr False"
    and fails: "\<forall>i<K. \<forall>ov. attempt_outcome (rft i website ov) = Inl (err i)"
    and ok: "\<forall>ov. attempt_outcome (rft K website ov) = Inr r"
    and res: "testWebsite pf rft t_has t_get t_set website options maxRetries w = (out, w', tr)"
  shows "(K \<le> maxRetries \<longrightarrow> out = Inr (Results r) \<and> length (runs tr) = K + 1)
       \<and> (maxRetries < K \<longrightarrow> out = Inr (Failed website (message (err maxRetries)))
                               \<and> length (runs tr) = maxRetries + 1)"
proof (intro conjI impI)
  obtain c d where h: "has pf (resultCache w) (disk w) t_has website (options_value (objects w) options)
      = (Inr False, c, d)"
    using miss by (cases "has pf (resultCache w) (disk w) t_has website (options_value (objects w) options)") auto
  obtain enh h0 where sp: "spread_options (objects w) options = (enh, h0)"
    by (cases "spread_options (objects w) options")
  let ?ls = "\<lparr> heap = assign_screenshotOptions h0 enh, lastError = None, calls = [], waits = [] \<rparr>"
  {
    assume K: "K \<le> maxRetries"
    from attempt_loop_succeeds [of K rft website err r maxRetries 0 enh ?ls] fails ok K
    obtain ls' where "attempt_loop rft website enh maxRetries 0 ?ls = (Some r, ls')"
      and "length (calls ls') = K + 1"
      by auto
    with res h sp show "out = Inr (Results r)" and "length (runs tr) = K + 1"
      by (auto simp: testWebsite_def split: prod.splits)
  }
  {
    assume K: "maxRetries < K"
    from attempt_loop_exhausts [of K rft website err maxRetries 0 enh ?ls] fails K
    obtain ls' where "attempt_loop rft website enh maxRetries 0 ?ls = (None, ls')"
      and "length (calls ls') = maxRetries + 1" and "lastError ls' = Some (err maxRetries)"
      by auto
    with res h sp show "out = Inr (Failed website (message (err maxRetries)))"
      and "length (runs tr) = maxRetries + 1"
      by (auto simp: testWebsite_def split: prod.splits)
  }
qed

theorem retry_budget_witness:
  "fst (testWebsite stub_platform (fails_then_succeeds 2) 0 0 0 ''https://a.example'' 0 2 fresh_world)
     = Inr (Results sample_result)
   \<and> length (runs (snd (snd (testWebsite stub_platform (fails_then_succeeds 2) 0 0 0
                                ''https://a.example'' 0 2 fresh_world)))) = 3
   \<and> fst (testWebsite stub_platform (fails_then_succeeds 3) 0 0 0 ''https://a.example'' 0 2 fresh_world)
     = Inr (Failed ''https://a.example'' ''net::ERR_CONNECTION_RESET'')
   \<and> length (runs (snd (snd (testWebsite stub_platform (fails_then_succeeds 3) 0 0 0
                                ''https://a.example'' 0 2 fresh_world)))) = 3"
proof -
  have miss: "fst (has stub_platform (resultCache fresh_world) (disk fresh_world) 0 ''https://a.example''
                    (options_value (objects fresh_world) 0)) = Inr False"
    by (simp add: fresh_world_def has_fresh)
  have fails: "\<forall>i<k. \<forall>ov. attempt_outcome (fails_then_succeeds k i ''https://a.example'' ov)
                 = Inl (Error ''net::ERR_CONNECTION_RESET'')" for k
    by (simp add: attempt_outcome_def fails_then_succeeds_def)
  have ok: "\<forall>ov. attempt_outcome (fails_then_succeeds k k ''https://a.example'' ov) = Inr sample_result" for k
    by (simp add: attempt_outcome_def fails_then_succeeds_def sample_result_def)
  have pair: "x = (fst x, fst (snd x), snd (snd x))" for x :: "(exn + job_value) \<times> world \<times> job_trace"
    by simp
  from retry_budget
         [where pf = stub_platform and w = fresh_world and t_has = 0 and t_get = 0 and t_set = 0
            and website = "''https://a.example''" and options = 0 and maxRetries = 2 and K = 2
            and rft = "fails_then_succeeds 2" and r = sample_result
            and err = "\<lambda>i. Error ''net::ERR_CONNECTION_RESET''",
          OF miss fails [of 2] ok [of 2] pair]
       retry_budget
         [where pf = stub_platform and w = fresh_world and t_has = 0 and t_get = 0 and t_set = 0
            and website = "''https://a.example''" and options = 0 and maxRetries = 2 and K = 3
            and rft = "fails_then_succeeds 3" and r = sample_result
            and err = "\<lambda>i. Error ''net::ERR_CONNECTION_RESET''",
          OF miss fails [of 3] ok [of 3] pair]
  show ?thesis by simp
qed

section \<open>Properties of \<open>testWebsite\<close>: the options\<close>

lemma map_of_set_same:
  "k \<in> fst ` set ps \<Longrightarrow> map_of (map (\<lambda>(k', v'). if k' = k then (k', v) else (k', v')) ps) k = Some v"
  by (induction ps) force+

lemma map_of_set_other:
  "k' \<noteq> k \<Longrightarrow> map_of (map (\<lambda>(j, v'). if j = k then (j, v) else (j, v')) ps) k' = map_of ps k'"
  by (induction ps) auto

lemma get_set_prop_same: "get_prop k (set_prop k v ps) = v"
proof (cases "k \<in> fst ` set ps")
  case True
  then show ?thesis
    by (simp add: get_prop_def set_prop_def map_of_set_same)
next
  case False
  then have "map_of ps k = None"
    by (simp add: map_of_eq_None_iff)
  with False show ?thesis
    by (simp add: get_prop_def set_prop_def map_add_def)
qed

lemma get_set_prop_other:
  assumes "k' \<noteq> k"
  shows "get_prop k' (set_prop k v ps) = get_prop k' ps"
proof (cases "k \<in> fst ` set ps")
  case True
  with assms show ?thesis
    by (simp add: get_prop_def set_prop_def map_of_set_other)
next
  case False
  with assms show ?thesis
    by (simp add: get_prop_def set_prop_def map_add_def split: option.splits)
qed

lemma extendsI:
  "option_objs h = option_objs h0 @ [ob] \<Longrightarrow> screenshotOptions ob = Some (length (screenshot_objs h0))
     \<Longrightarrow> screenshot_objs h = screenshot_objs h0 @ [p] \<Longrightarrow> get_prop ''waitUntil'' p = wu
     \<Longrightarrow> extends h0 h wu"
  unfolding extends_def by blast

lemma extendsE:
  assumes "extends h0 h wu"
  obtains ob p where "option_objs h = option_objs h0 @ [ob]"
    and "screenshotOptions ob = Some (length (screenshot_objs h0))"
    and "screenshot_objs h = screenshot_objs h0 @ [p]"
    and "get_prop ''waitUntil'' p = wu"
  using assms unfolding extends_def by blast

lemma extends_init:
  "extends h0 (assign_screenshotOptions (snd (spread_options h0 a)) (length (option_objs h0)))
     (JStr ''domcontentloaded'')"
proof (cases "screenshotOptions (option_objs h0 ! a)")
  case None
  show ?thesis
    by (rule extendsI
          [where ob = "\<lparr> props_before = props_before (option_objs h0 ! a) @ props_after (option_objs h0 ! a),
                         screenshotOptions = Some (length (screenshot_objs h0)), props_after = [] \<rparr>"
             and p = "set_prop ''timeout'' (JNum 60000)
                        (set_prop ''waitUntil'' (JStr ''domcontentloaded'') [])"])
       (simp_all add: None assign_screenshotOptions_def spread_options_def Let_def
          get_set_prop_same get_set_prop_other)
next
  case (Some r)
  show ?thesis
    by (rule extendsI
          [where ob = "(option_objs h0 ! a)\<lparr> screenshotOptions := Some (length (screenshot_objs h0)) \<rparr>"
             and p = "set_prop ''timeout'' (JNum 60000)
                        (set_prop ''waitUntil'' (JStr ''domcontentloaded'') (screenshot_objs h0 ! r))"])
       (simp_all add: Some assign_screenshotOptions_def spread_options_def Let_def
          get_set_prop_same get_set_prop_other)
qed

lemma extends_waitUntil:
  assumes "extends h0 h wu"
  shows "waitUntil_of (options_value h (length (option_objs h0))) = wu"
  using assms by (elim extendsE) (simp add: waitUntil_of_def options_value_def Let_def)

lemma extends_set_waitUntil:
  assumes "extends h0 h wu"
  shows "extends h0 (set_screenshot_prop h (length (option_objs h0)) ''waitUntil'' v) v"
  using assms
proof (elim extendsE)
  fix ob p
  assume a: "option_objs h = option_objs h0 @ [ob]"
    "screenshotOptions ob = Some (length (screenshot_objs h0))"
    "screenshot_objs h = screenshot_objs h0 @ [p]"
  show ?thesis
    by (rule extendsI [where ob = ob and p = "set_prop ''waitUntil'' v p"])
       (simp_all add: a set_screenshot_prop_def get_set_prop_same)
qed

lemma extends_set_timeout:
  assumes "extends h0 h wu"
  shows "extends h0 (set_screenshot_prop h (length (option_objs h0)) ''timeout'' v) wu"
  using assms
proof (elim extendsE)
  fix ob p
  assume a: "option_objs h = option_objs h0 @ [ob]"
    "screenshotOptions ob = Some (length (screenshot_objs h0))"
    "screenshot_objs h = screenshot_objs h0 @ [p]"
    and w: "get_prop ''waitUntil'' p = wu"
  show ?thesis
    by (rule extendsI [where ob = ob and p = "set_prop ''timeout'' v p"])
       (simp_all add: a w set_screenshot_prop_def get_set_prop_other)
qed

lemma extends_frame:
  assumes "extends h0 h wu"
  shows "take (length (option_objs h0)) (option_objs h) = option_objs h0
     \<and> take (length (screenshot_objs h0)) (screenshot_objs h) = screenshot_objs h0"
  using assms by (elim extendsE) simp

lemma extends_value:
  assumes ex: "extends h0 h wu" and v: "valid_options h0 a"
  shows "options_value h a = options_value h0 a"
proof -
  from ex obtain ob p where o: "option_objs h = option_objs h0 @ [ob]"
    and s: "screenshot_objs h = screenshot_objs h0 @ [p]"
    by (rule extendsE)
  from v have a: "a < length (option_objs h0)"
    by (simp add: valid_options_def)
  with o have same: "option_objs h ! a = option_objs h0 ! a"
    by (simp add: nth_append)
  show ?thesis
  proof (cases "screenshotOptions (option_objs h0 ! a)")
    case None
    with same show ?thesis
      by (simp add: options_value_def)
  next
    case (Some r)
    with v have "r < length (screenshot_objs h0)"
      by (simp add: valid_options_def)
    with s have "screenshot_objs h ! r = screenshot_objs h0 ! r"
      by (simp add: nth_append)
    with same Some show ?thesis
      by (simp add: options_value_def)
  qed
qed

lemma mono_trace_shape:
  assumes "mono_trace x y xs cur"
  shows "\<exists>a b. xs = replicate a x @ replicate b y"
  using assms unfolding mono_trace_def
proof (elim disjE conjE exE)
  fix a assume "xs = replicate a x"
  then have "xs = replicate a x @ replicate 0 y" by simp
  then show ?thesis by blast
next
  fix a b assume "xs = replicate a x @ replicate b y"
  then show ?thesis by blast
qed

lemma mono_trace_relax: "mono_trace x y xs cur \<Longrightarrow> mono_trace x y xs y"
  using mono_trace_shape [of x y xs cur] by (simp add: mono_trace_def)

lemma mono_trace_append:
  assumes "mono_trace x y xs cur"
  shows "mono_trace x y (xs @ [cur]) cur"
  using assms unfolding mono_trace_def
proof (elim disjE conjE exE)
  fix a assume c: "cur = x" and "xs = replicate a x"
  then have "xs @ [cur] = replicate (Suc a) x"
    by (simp add: replicate_append_same)
  with c show "cur = x \<and> (\<exists>a. xs @ [cur] = replicate a x)
      \<or> cur = y \<and> (\<exists>a b. xs @ [cur] = replicate a x @ replicate b y)"
    by blast
next
  fix a b assume c: "cur = y" and "xs = replicate a x @ replicate b y"
  then have "xs @ [cur] = replicate a x @ replicate (Suc b) y"
    by (simp add: replicate_append_same)
  with c show "cur = x \<and> (\<exists>a. xs @ [cur] = replicate a x)
      \<or> cur = y \<and> (\<exists>a b. xs @ [cur] = replicate a x @ replicate b y)"
    by blast
qed

lemma loop_invI:
  "extends h0 (heap ls) wu \<Longrightarrow>
   mono_trace (JStr ''domcontentloaded'') (JStr ''load'') (map waitUntil_of (calls ls)) wu \<Longrightarrow>
   loop_inv h0 ls"
  unfolding loop_inv_def by blast

lemma adjust_strategy_inv:
  assumes ex: "extends h0 h wu" and mt: "mono_trace x (JStr ''load'') xs wu"
  shows "\<exists>wu'. extends h0 (adjust_strategy h (length (option_objs h0)) retries) wu'
           \<and> mono_trace x (JStr ''load'') xs wu'"
proof (cases "retries > 0")
  case False
  with ex mt show ?thesis
    by (auto simp: adjust_strategy_def)
next
  case True
  let ?h = "set_screenshot_prop h (length (option_objs h0)) ''timeout'' (JNum (60000 + int retries * 30000))"
  from extends_set_timeout [OF ex] have e1: "extends h0 ?h wu" .
  show ?thesis
  proof (cases "retries \<ge> 2")
    case False
    with True e1 mt show ?thesis
      by (auto simp: adjust_strategy_def Let_def)
  next
    case two: True
    from extends_set_waitUntil [OF e1, of "JStr ''load''"] mono_trace_relax [OF mt] True two
    show ?thesis
      by (auto simp: adjust_strategy_def Let_def)
  qed
qed

lemma attempt_loop_inv:
  "loop_inv h0 ls \<Longrightarrow> enh = length (option_objs h0) \<Longrightarrow>
     attempt_loop rft website enh maxRetries retries ls = (res, ls') \<Longrightarrow> loop_inv h0 ls'"
proof (induction rft website enh maxRetries retries ls rule: attempt_loop.induct)
  case (1 rft website enh maxRetries retries ls)
  note eq = "1.prems"(3) [unfolded attempt_loop.simps [of rft website enh maxRetries retries]]
  show ?case
  proof (cases "retries \<le> maxRetries")
    case False
    with eq have "ls' = ls"
      by simp
    with "1.prems"(1) show ?thesis by simp
  next
    case True
    let ?h1 = "adjust_strategy (heap ls) enh retries"
    let ?arg = "options_value ?h1 enh"
    from "1.prems"(1) obtain wu where ex: "extends h0 (heap ls) wu"
      and mt: "mono_trace (JStr ''domcontentloaded'') (JStr ''load'') (map waitUntil_of (calls ls)) wu"
      unfolding loop_inv_def by blast
    from adjust_strategy_inv [OF ex mt, of retries] "1.prems"(2)
    obtain wu1 where ex1: "extends h0 ?h1 wu1"
      and mt1: "mono_trace (JStr ''domcontentloaded'') (JStr ''load'') (map waitUntil_of (calls ls)) wu1"
      by auto
    from extends_waitUntil [OF ex1] "1.prems"(2) have arg: "waitUntil_of ?arg = wu1" by simp
    from mono_trace_append [OF mt1] arg
    have mt2: "mono_trace (JStr ''domcontentloaded'') (JStr ''load'')
                 (map waitUntil_of (calls ls @ [?arg])) wu1" by simp
    show ?thesis
    proof (cases "attempt_outcome (rft retries website ?arg)")
      case (Inr r)
      with True eq have "ls' = ls\<lparr> heap := ?h1, calls := calls ls @ [?arg] \<rparr>"
        by (simp add: Let_def)
      with ex1 mt2 show ?thesis
        by (intro loop_invI [of h0 ls' wu1]) simp_all
    next
      case (Inl e)
      let ?ls1 = "catch_error ls ?h1 ?arg enh maxRetries retries e"
      have inv1: "loop_inv h0 ?ls1"
      proof (cases "message_includes (message e) ''start lh:driver:navigate'' \<and> retries < maxRetries")
        case True
        from extends_set_waitUntil [OF ex1, of "JStr ''load''"] "1.prems"(2)
        have "extends h0 (set_screenshot_prop ?h1 enh ''waitUntil'' (JStr ''load'')) (JStr ''load'')"
          by simp
        with mono_trace_relax [OF mt2] True show ?thesis
          by (intro loop_invI [of h0 ?ls1 "JStr ''load''"]) (simp_all add: catch_error_def)
      next
        case False
        then have "heap ?ls1 = ?h1"
          by (auto simp: catch_error_def)
        with ex1 mt2 show ?thesis
          by (intro loop_invI [of h0 ?ls1 wu1]) (simp_all add: catch_error_def)
      qed
      show ?thesis
      proof (cases "retries < maxRetries")
        case False
        with True Inl eq have "ls' = ?ls1"
          by (simp add: Let_def)
        with inv1 show ?thesis by simp
      next
        case lt: True
        let ?ls2 = "?ls1\<lparr> waits := waits ?ls1 @ [(retries + 1) * 5000] \<rparr>"
        from inv1 have inv2: "loop_inv h0 ?ls2"
          by (simp add: loop_inv_def)
        from True Inl lt eq
        have "attempt_loop rft website enh maxRetries (retries + 1) ?ls2 = (res, ls')"
          by (simp add: Let_def)
        from "1.IH" [OF True refl refl Inl refl lt inv2 "1.prems"(2) this]
        show ?thesis .
      qed
    qed
  qed
qed

lemma testWebsite_job_inv:
  assumes "testWebsite pf rft t_has t_get t_set website options maxRetries w = (out, w', tr)"
  shows "job_inv (objects w) (objects w') (runs tr)"
proof -
  obtain r c d where h: "has pf (resultCache w) (disk w) t_has website
                           (options_value (objects w) options) = (r, c, d)"
    by (cases "has pf (resultCache w) (disk w) t_has website (options_value (objects w) options)")
  show ?thesis
  proof (cases "r = Inr False")
    case False
    with assms h have "objects w' = objects w \<and> runs tr = []"
      by (auto simp: testWebsite_def no_trace_def
          split: prod.splits sum.splits bool.splits option.splits)
    then show ?thesis
      by (simp add: job_inv_def)
  next
    case True
    let ?enh = "length (option_objs (objects w))"
    let ?ls = "\<lparr> heap = assign_screenshotOptions (snd (spread_options (objects w) options)) ?enh,
                 lastError = None, calls = [], waits = [] \<rparr>"
    obtain res ls where lp: "attempt_loop rft website ?enh maxRetries 0 ?ls = (res, ls)"
      by (cases "attempt_loop rft website ?enh maxRetries 0 ?ls")
    have "mono_trace (JStr ''domcontentloaded'') (JStr ''load'') (map waitUntil_of (calls ?ls))
            (JStr ''domcontentloaded'')"
      by (simp add: mono_trace_def)
    with extends_init [of "objects w" options] have "loop_inv (objects w) ?ls"
      by (intro loop_invI [of "objects w" ?ls "JStr ''domcontentloaded''"]) simp_all
    from attempt_loop_inv [OF this refl lp] have inv: "loop_inv (objects w) ls" .
    from assms h True lp have "objects w' = heap ls \<and> runs tr = calls ls"
      by (cases res) (auto simp: testWebsite_def spread_options_def split: prod.splits)
    with inv show ?thesis
      by (auto simp: job_inv_def loop_inv_def)
  qed
qed

text \<open>
  C9. \<open>testWebsite\<close> writes only to the objects it creates: every options object and
  every screenshot-options object of the caller's store is the same afterwards, so the
  caller's \<open>options\<close> has the value it had. The \<open>waitUntil\<close> values passed to the
  successive calls of the full test are some \<open>'domcontentloaded'\<close> followed by some
  \<open>'load'\<close>: once a call got \<open>'load'\<close>, every later call gets it.
\<close>

theorem relaxation_scoped_and_monotonic:
  assumes "testWebsite pf rft t_has t_get t_set website options maxRetries w = (out, w', tr)"
  shows "take (length (option_objs (objects w))) (option_objs (objects w')) = option_objs (objects w)
       \<and> take (length (screenshot_objs (objects w))) (screenshot_objs (objects w'))
           = screenshot_objs (objects w)
       \<and> (valid_options (objects w) options \<longrightarrow>
            options_value (objects w') options = options_value (objects w) options)
       \<and> (\<exists>a b. map waitUntil_of (runs tr)
                    = replicate a (JStr ''domcontentloaded'') @ replicate b (JStr ''load''))"
proof -
  from testWebsite_job_inv [OF assms]
  consider "objects w' = objects w" and "runs tr = []"
    | wu where "extends (objects w) (objects w') wu"
        and "mono_trace (JStr ''domcontentloaded'') (JStr ''load'') (map waitUntil_of (runs tr)) wu"
    unfolding job_inv_def by blast
  then show ?thesis
  proof cases
    case 1
    then show ?thesis by simp
  next
    case 2
    from extends_frame [OF 2(1)] extends_value [OF 2(1)] mono_trace_shape [OF 2(2)]
    show ?thesis by blast
  qed
qed

theorem relaxation_scoped_and_monotonic_witness:
  "valid_options (objects fresh_world) 0
   \<and> options_value (objects (fst (snd (testWebsite stub_platform (fails_then_succeeds 3) 0 0 0
                                          ''https://a.example'' 0 3 fresh_world)))) 0
       = options_value (objects fresh_world) 0
   \<and> (\<exists>a b. map waitUntil_of (runs (snd (snd (testWebsite stub_platform (fails_then_succeeds 3) 0 0 0
                                                   ''https://a.example'' 0 3 fresh_world))))
                = replicate a (JStr ''domcontentloaded'') @ replicate b (JStr ''load''))"
proof -
  have v: "valid_options (objects fresh_world) 0"
    by (simp add: valid_options_def fresh_world_def sample_options_def)
  have pair: "x = (fst x, fst (snd x), snd (snd x))" for x :: "(exn + job_value) \<times> world \<times> job_trace"
    by simp
  from relaxation_scoped_and_monotonic
         [where pf = stub_platform and rft = "fails_then_succeeds 3" and t_has = 0 and t_get = 0
            and t_set = 0 and website = "''https://a.example''" and options = 0
            and maxRetries = 3 and w = fresh_world, OF pair] v
  show ?thesis by blast
qed

section \<open>Properties of \<open>testWebsite\<close>: the cache key\<close>

lemma has_preserves:
  assumes "has pf c fs t u ov = (x, c', fs')"
  shows "cacheDir c' = cacheDir c" and "cacheDuration c' = cacheDuration c"
    and "faulty fs' = faulty fs"
    and "k' \<noteq> generateKey pf c u ov \<Longrightarrow> cache c' k' = cache c k'"
  using assms
  by (auto simp: has_def Let_def unlinkSync_def split: option.splits if_splits sum.splits)

lemma hit_after_set:
  assumes "set_result pf c0 fs0 t u ov r = (c1, fs1)"
    and "\<not> faulty fs0 WriteFile (cacheFile c0 (generateKey pf c0 u ov))"
    and "\<not> faulty fs0 ReadFile (cacheFile c0 (generateKey pf c0 u ov))"
    and "t_has - t < cacheDuration c0" and "t_get - t < cacheDuration c0"
  shows "has pf c1 fs1 t_has u ov = (Inr True, c1, fs1)"
    and "get pf c1 fs1 t_get u ov = (Inr (Some r), c1, fs1)"
  using assms
  by (auto simp: set_result_def get_def has_def Let_def generateKey_def cacheFile_def
      writeFileSync_def readFileSync_def existsSync_def split: if_splits)

lemma set_result_other_key:
  assumes "set_result pf c0 fs0 t u ov r = (c1, fs1)" and "k' \<noteq> generateKey pf c0 u ov"
  shows "cache c1 k' = cache c0 k'"
  using assms by (auto simp: set_result_def Let_def split: sum.splits)

lemma has_absent:
  "cache c (generateKey pf c u ov) = None \<Longrightarrow> has pf c fs t u ov = (Inr False, c, fs)"
  by (simp add: has_def Let_def)

lemma testWebsite_fresh_success:
  assumes res: "testWebsite pf rft t_has t_get t_set website a maxRetries w
                  = (Inr (Results r), w1, tr)"
    and ran: "runs tr \<noteq> []"
  shows "\<exists>c d ls. has pf (resultCache w) (disk w) t_has website (options_value (objects w) a)
                     = (Inr False, c, d)
           \<and> set_result pf c d t_set website (options_value (heap ls) a) r
                = (resultCache w1, disk w1)
           \<and> objects w1 = heap ls \<and> loop_inv (objects w) ls"
proof -
  obtain x c d where h: "has pf (resultCache w) (disk w) t_has website
                           (options_value (objects w) a) = (x, c, d)"
    by (cases "has pf (resultCache w) (disk w) t_has website (options_value (objects w) a)")
  have x: "x = Inr False"
  proof (rule ccontr)
    assume "x \<noteq> Inr False"
    with res h have "runs tr = []"
      by (auto simp: testWebsite_def no_trace_def
          split: prod.splits sum.splits bool.splits option.splits)
    with ran show False by simp
  qed
  let ?enh = "length (option_objs (objects w))"
  let ?ls = "\<lparr> heap = assign_screenshotOptions (snd (spread_options (objects w) a)) ?enh,
               lastError = None, calls = [], waits = [] \<rparr>"
  obtain out ls where lp: "attempt_loop rft website ?enh maxRetries 0 ?ls = (out, ls)"
    by (cases "attempt_loop rft website ?enh maxRetries 0 ?ls")
  have "mono_trace (JStr ''domcontentloaded'') (JStr ''load'') (map waitUntil_of (calls ?ls))
          (JStr ''domcontentloaded'')"
    by (simp add: mono_trace_def)
  with extends_init [of "objects w" a] have "loop_inv (objects w) ?ls"
    by (intro loop_invI [of "objects w" ?ls "JStr ''domcontentloaded''"]) simp_all
  from attempt_loop_inv [OF this refl lp] have inv: "loop_inv (objects w) ls" .
  from res h x lp have "out = Some r
      \<and> set_result pf c d t_set website (options_value (heap ls) a) r = (resultCache w1, disk w1)
      \<and> objects w1 = heap ls"
    by (cases out) (auto simp: testWebsite_def spread_options_def split: prod.splits)
  with h x inv show ?thesis by blast
qed

text \<open>
  C7. The key is the MD5 digest of the JSON text of the URL and the options value; it
  reads neither the cache nor the clock, so it is the same in every cache and every run.
  Jobs with the same target and the same options value (the same properties in the same
  order) are fungible: after a job has run the test and
  returned its results, a second job for the same target with options of the same value
  (the same object, which the first job left as it was, or another one), started before
  the entry expires on a store whose write and read of the entry's file succeed, is
  served from the entry of the first: it returns the same results and makes no call of
  the full test. The first job stores under its own key only: a job with another key
  that had no entry before still has none.
\<close>

theorem key_deterministic:
  assumes first: "testWebsite pf rft t_lookup t_read t_set website a maxRetries w = (Inr (Results r), w1, tr1)"
    and ran: "runs tr1 \<noteq> []"
    and valid: "valid_options (objects w) a"
    and same: "options_value (objects w1) b = options_value (objects w) a"
    and writable: "\<not> faulty (disk w) WriteFile
                     (cacheFile (resultCache w)
                        (generateKey pf (resultCache w) website (options_value (objects w) a)))"
    and readable: "\<not> faulty (disk w) ReadFile
                     (cacheFile (resultCache w)
                        (generateKey pf (resultCache w) website (options_value (objects w) a)))"
    and fresh: "t_has - t_set < cacheDuration (resultCache w)"
               "t_get - t_set < cacheDuration (resultCache w)"
  shows "generateKey pf c u ov = md5_hex pf (JSON_stringify pf u ov)
       \<and> generateKey pf c u ov = generateKey pf c' u ov
       \<and> generateKey pf (resultCache w1) website (options_value (objects w1) b)
           = generateKey pf (resultCache w) website (options_value (objects w) a)
       \<and> options_value (objects w1) a = options_value (objects w) a
       \<and> testWebsite pf rft' t_has t_get t_set' website b maxRetries' w1
           = (Inr (Results r), w1, no_trace)
       \<and> (generateKey pf (resultCache w) u' ov'
             \<noteq> generateKey pf (resultCache w) website (options_value (objects w) a)
           \<and> cache (resultCache w) (generateKey pf (resultCache w) u' ov') = None
           \<longrightarrow> has pf (resultCache w1) (disk w1) t u' ov' = (Inr False, resultCache w1, disk w1))"
proof -
  let ?ov = "options_value (objects w) a"
  from testWebsite_fresh_success [OF first ran]
  obtain c0 d0 ls where h: "has pf (resultCache w) (disk w) t_lookup website ?ov = (Inr False, c0, d0)"
    and st: "set_result pf c0 d0 t_set website (options_value (heap ls) a) r
               = (resultCache w1, disk w1)"
    and obj: "objects w1 = heap ls" and inv: "loop_inv (objects w) ls"
    by blast
  from inv obtain wu where ex: "extends (objects w) (heap ls) wu"
    unfolding loop_inv_def by blast
  from extends_value [OF ex valid] have keep: "options_value (heap ls) a = ?ov" .
  have key: "generateKey pf x website ?ov = generateKey pf y website ?ov" for x y
    by (simp add: generateKey_def)
  have path: "cacheFile c0 (generateKey pf c0 website ?ov)
                = cacheFile (resultCache w) (generateKey pf (resultCache w) website ?ov)"
    using has_preserves(1) [OF h] by (simp add: cacheFile_def generateKey_def)
  from st keep have st': "set_result pf c0 d0 t_set website ?ov r = (resultCache w1, disk w1)"
    by simp
  from writable readable have w0: "\<not> faulty d0 WriteFile (cacheFile c0 (generateKey pf c0 website ?ov))"
    and r0: "\<not> faulty d0 ReadFile (cacheFile c0 (generateKey pf c0 website ?ov))"
    by (simp_all add: path has_preserves(3) [OF h])
  from fresh have f0: "t_has - t_set < cacheDuration c0" "t_get - t_set < cacheDuration c0"
    by (simp_all add: has_preserves(2) [OF h])
  from hit_after_set [OF st' w0 r0 f0]
  have hit: "has pf (resultCache w1) (disk w1) t_has website ?ov = (Inr True, resultCache w1, disk w1)"
    and got: "get pf (resultCache w1) (disk w1) t_get website ?ov
                = (Inr (Some r), resultCache w1, disk w1)"
    by simp_all
  have served: "testWebsite pf rft' t_has t_get t_set' website b maxRetries' w1
                  = (Inr (Results r), w1, no_trace)"
    by (simp add: testWebsite_def same hit got)
  have other: "has pf (resultCache w1) (disk w1) t u' ov' = (Inr False, resultCache w1, disk w1)"
    if ne: "generateKey pf (resultCache w) u' ov' \<noteq> generateKey pf (resultCache w) website ?ov"
      and none: "cache (resultCache w) (generateKey pf (resultCache w) u' ov') = None"
  proof -
    let ?k' = "generateKey pf (resultCache w) u' ov'"
    from ne have "?k' \<noteq> generateKey pf (resultCache w) website ?ov" .
    from has_preserves(4) [OF h this] none have "cache c0 ?k' = None" by simp
    moreover from ne have "?k' \<noteq> generateKey pf c0 website ?ov"
      by (simp add: generateKey_def)
    ultimately have "cache (resultCache w1) ?k' = None"
      using set_result_other_key [OF st'] by simp
    then have "cache (resultCache w1) (generateKey pf (resultCache w1) u' ov') = None"
      by (simp add: generateKey_def)
    then show ?thesis by (rule has_absent)
  qed
  have "generateKey pf (resultCache w1) website (options_value (objects w1) b)
          = generateKey pf (resultCache w) website ?ov"
    by (simp add: same generateKey_def)
  moreover have "options_value (objects w1) a = ?ov"
    by (simp add: obj keep)
  moreover have "generateKey pf c u ov = md5_hex pf (JSON_stringify pf u ov)"
    by (simp add: generateKey_def)
  moreover have "generateKey pf c u ov = generateKey pf c' u ov"
    by (simp add: generateKey_def)
  ultimately show ?thesis
    using served other by blast
qed

lemma testWebsite_first_attempt_runs:
  assumes miss: "has pf (resultCache w) (disk w) t_has website (options_value (objects w) options)
                   = (Inr False, c, d)"
    and ok: "\<And>ov. attempt_outcome (rft 0 website ov) = Inr r"
  shows "runs (snd (snd (testWebsite pf rft t_has t_get t_set website options maxRetries w))) \<noteq> []"
proof -
  obtain enh h0 where sp: "spread_options (objects w) options = (enh, h0)"
    by (cases "spread_options (objects w) options")
  let ?ls = "\<lparr> heap = assign_screenshotOptions h0 enh, lastError = None, calls = [], waits = [] \<rparr>"
  from attempt_loop_success_step [of 0 maxRetries rft website r enh ?ls] ok
  obtain ls' where "attempt_loop rft website enh maxRetries 0 ?ls = (Some r, ls')"
    and "length (calls ls') = Suc (length (calls ?ls))"
    by force
  moreover from this(2) have "calls ls' \<noteq> []" by auto
  ultimately show ?thesis
    using miss sp by (simp add: testWebsite_def split: prod.splits)
qed

lemma testWebsite_keeps_value:
  assumes "testWebsite pf rft t_has t_get t_set website options maxRetries w = (out, w', tr)"
    and "valid_options (objects w) a"
  shows "options_value (objects w') a = options_value (objects w) a"
proof -
  from testWebsite_job_inv [OF assms(1)]
  consider "objects w' = objects w" | wu where "extends (objects w) (objects w') wu"
    unfolding job_inv_def by blast
  then show ?thesis
  proof cases
    case 1
    then show ?thesis by simp
  next
    case 2
    from extends_value [OF 2 assms(2)] show ?thesis .
  qed
qed

theorem key_deterministic_witness:
  "testWebsite stub_platform (fails_then_succeeds 5) 1000 1000 1000 ''https://a.example'' 2 0
       (fst (snd (testWebsite stub_platform (fails_then_succeeds 0) 0 0 0 ''https://a.example'' 0 2
                    twin_world)))
     = (Inr (Results sample_result),
        fst (snd (testWebsite stub_platform (fails_then_succeeds 0) 0 0 0 ''https://a.example'' 0 2
                    twin_world)),
        no_trace)
   \<and> fst (has stub_platform
            (resultCache (fst (snd (testWebsite stub_platform (fails_then_succeeds 0) 0 0 0
                                      ''https://a.example'' 0 2 twin_world))))
            (disk (fst (snd (testWebsite stub_platform (fails_then_succeeds 0) 0 0 0
                               ''https://a.example'' 0 2 twin_world))))
            1000 ''https://a.example'' (options_value twin_options 1))
       = Inr False"
proof -
  let ?T = "testWebsite stub_platform (fails_then_succeeds 0) 0 0 0 ''https://a.example'' 0 2 twin_world"
  have miss: "has stub_platform (resultCache twin_world) (disk twin_world) 0 ''https://a.example''
                (options_value (objects twin_world) 0)
                = (Inr False, new_ResultCache 3600000, healthy_disk)"
    by (simp add: twin_world_def has_fresh)
  have ok: "attempt_outcome (fails_then_succeeds 0 0 ''https://a.example'' ov) = Inr sample_result" for ov
    by (simp add: attempt_outcome_def fails_then_succeeds_def sample_result_def)
  have out: "fst ?T = Inr (Results sample_result)"
    by (rule testWebsite_first_attempt [where rft = "fails_then_succeeds 0", OF miss ok])
  have first: "?T = (Inr (Results sample_result), fst (snd ?T), snd (snd ?T))"
    by (rule prod_eqI) (simp_all add: out)
  have ran: "runs (snd (snd ?T)) \<noteq> []"
    by (rule testWebsite_first_attempt_runs [where rft = "fails_then_succeeds 0", OF miss ok])
  have valid0: "valid_options (objects twin_world) 0"
    and valid2: "valid_options (objects twin_world) 2"
    by (simp_all add: valid_options_def twin_world_def twin_options_def)
  have twin: "options_value (objects twin_world) 2 = options_value (objects twin_world) 0"
    by (simp add: options_value_def twin_world_def twin_options_def)
  from testWebsite_keeps_value [OF first valid2] twin
  have same: "options_value (objects (fst (snd ?T))) 2 = options_value (objects twin_world) 0"
    by simp
  have healthy: "\<not> faulty (disk twin_world) call p" for call p
    by (simp add: twin_world_def healthy_disk_def)
  have fresh: "1000 - 0 < cacheDuration (resultCache twin_world)"
    by (simp add: twin_world_def new_ResultCache_def)
  have other: "generateKey stub_platform (resultCache twin_world) ''https://a.example''
                  (options_value twin_options 1)
                \<noteq> generateKey stub_platform (resultCache twin_world) ''https://a.example''
                    (options_value (objects twin_world) 0)"
    by (simp add: generateKey_def stub_platform_def property_names_def names_of_def
        options_value_def twin_world_def twin_options_def)
  have none: "cache (resultCache twin_world) k = None" for k
    by (simp add: twin_world_def new_ResultCache_def)
  from key_deterministic
         [where pf = stub_platform and rft = "fails_then_succeeds 0" and t_lookup = 0 and t_read = 0
            and t_set = 0 and website = "''https://a.example''" and a = 0 and maxRetries = 2
            and w = twin_world and r = sample_result and b = 2 and t_has = 1000 and t_get = 1000
            and rft' = "fails_then_succeeds 5" and t_set' = 1000 and maxRetries' = 0
            and u' = "''https://a.example''" and ov' = "options_value twin_options 1" and t = 1000,
          OF first ran valid0 same healthy healthy fresh fresh]
       other none
  show ?thesis by simp
qed

text \<open>
  A job calls the manager not at all (on the cache path) or \<open>acquire\<close> and then
  \<open>release\<close>, once each, whether the test succeeds or the retries are used up.
\<close>

lemma testWebsite_limiter_calls:
  assumes "testWebsite pf rft t_has t_get t_set website options maxRetries w = (out, w', tr)"
  shows "limiter_calls tr = [] \<and> runs tr = [] \<or> limiter_calls tr = [AcquireCall, ReleaseCall]"
  using assms
  by (auto simp: testWebsite_def no_trace_def
      split: prod.splits sum.splits bool.splits option.splits)

section \<open>Properties of \<open>testWebsite\<close>: faults of the cache store\<close>

lemma sample_key_eq:
  "sample_key = md5_hex stub_platform
                  (JSON_stringify stub_platform ''https://a.example'' (options_value sample_options 0))"
  by (simp add: sample_key_def generateKey_def)

text \<open>
  C5, at a failing input. The cache holds an entry that has expired, and deleting its
  file throws. \<open>has\<close> does not absorb the error: it leaves \<open>testWebsite\<close>, which has
  made no call of the full test. On a miss the same job runs the test and returns its
  results.
\<close>

theorem unlink_fault_leaves_testWebsite:
  "testWebsite stub_platform (fails_then_succeeds 0) 3600000 3600000 3600000
       ''https://a.example'' 0 2 undeletable_world
     = (Inl (FsError (''EPERM: operation not permitted, unlink ''
                        @ cacheFile (new_ResultCache 3600000) sample_key)),
        undeletable_world\<lparr> resultCache := new_ResultCache 3600000 \<rparr>, no_trace)
   \<and> fst (testWebsite stub_platform (fails_then_succeeds 0) 3600000 3600000 3600000
            ''https://a.example'' 0 2 fresh_world) = Inr (Results sample_result)"
proof
  show "testWebsite stub_platform (fails_then_succeeds 0) 3600000 3600000 3600000
       ''https://a.example'' 0 2 undeletable_world
     = (Inl (FsError (''EPERM: operation not permitted, unlink ''
                        @ cacheFile (new_ResultCache 3600000) sample_key)),
        undeletable_world\<lparr> resultCache := new_ResultCache 3600000 \<rparr>, no_trace)"
    by (simp add: testWebsite_def has_def undeletable_world_def generateKey_def
        sample_key_eq new_ResultCache_def cacheFile_def existsSync_def unlinkSync_def Let_def
        fun_eq_iff)
  show "fst (testWebsite stub_platform (fails_then_succeeds 0) 3600000 3600000 3600000
            ''https://a.example'' 0 2 fresh_world) = Inr (Results sample_result)"
    by (rule testWebsite_first_attempt [where c = "new_ResultCache 3600000" and d = healthy_disk])
       (simp_all add: fresh_world_def has_fresh attempt_outcome_def fails_then_succeeds_def
          sample_result_def)
qed

text \<open>
  C6, at a failing input. The map holds a fresh entry whose file was never written
  (\<open>set\<close> absorbed the error of the write). \<open>has\<close> answers true, \<open>get\<close> finds no file
  and returns \<open>null\<close>, and \<open>testWebsite\<close> returns that \<open>null\<close>: neither results nor
  \<open>{url, error}\<close>.
\<close>

theorem missing_file_returns_null:
  "testWebsite stub_platform (fails_then_succeeds 0) 1000 1000 1000 ''https://a.example'' 0 2
       unwritten_world
     = (Inr NullValue, unwritten_world, no_trace)"
  by (simp add: testWebsite_def has_def get_def set_result_def unwritten_world_def full_disk_def
      generateKey_def new_ResultCache_def cacheFile_def existsSync_def
      writeFileSync_def Let_def)

section \<open>Properties of the batch\<close>

lemma mset_completion_order: "mset (completion_order finish) = mset [0..<length finish]"
proof -
  have z: "map snd (zip finish [0..<length finish]) = [0..<length finish]"
    by (rule map_snd_zip) simp
  have "mset (completion_order finish) = mset (map snd (zip finish [0..<length finish]))"
    unfolding completion_order_def by (simp only: mset_map mset_sort)
  then show ?thesis
    by (simp only: z)
qed

lemma completion_order_sorted: "sorted finish \<Longrightarrow> completion_order finish = [0..<length finish]"
proof -
  assume "sorted finish"
  then have "sorted (map fst (zip finish [0..<length finish]))"
    by (simp add: map_fst_zip)
  then have "sort_key fst (zip finish [0..<length finish]) = zip finish [0..<length finish]"
    by (rule sort_key_id_if_sorted)
  then show ?thesis
    by (simp add: completion_order_def map_snd_zip)
qed

lemma url_job_entry: "url (job_entry website out) = website"
  by (simp add: job_entry_def failure_entry_def success_entry_def
      split: sum.splits job_value.splits option.splits)

text \<open>
  C1, as stated, fails: two targets, the second job done first; the entries come in the
  order \<open>b\<close>, \<open>a\<close>.
\<close>

theorem batch_outcome_not_input_order:
  "map url (batchResults [''https://a.example'', ''https://b.example'']
              [Inr (Results sample_result), Inr (Results sample_result)] [2, 1])
     \<noteq> [''https://a.example'', ''https://b.example'']"
  by (simp add: batchResults_def completion_order_def url_job_entry)

text \<open>
  C1, amended. \<open>batchResults\<close> has one entry per input target: as many entries as
  targets, and the targets of the entries are the input targets up to order. The
  entries are in the order in which the jobs complete; when the jobs complete in input
  order, the entries are in input order.
\<close>

theorem batch_outcome_completion_order:
  assumes "length finish = length ws"
  shows "length (batchResults ws outcomes finish) = length ws
       \<and> map url (batchResults ws outcomes finish) = map (\<lambda>i. ws ! i) (completion_order finish)
       \<and> mset (map url (batchResults ws outcomes finish)) = mset ws
       \<and> (sorted finish \<longrightarrow> map url (batchResults ws outcomes finish) = ws)"
proof -
  have u: "map url (batchResults ws outcomes finish) = map (\<lambda>i. ws ! i) (completion_order finish)"
    by (simp add: batchResults_def url_job_entry comp_def)
  have "length (completion_order finish) = length finish"
    using mset_completion_order [of finish] by (metis size_mset length_upt diff_zero)
  with assms have l: "length (batchResults ws outcomes finish) = length ws"
    by (simp add: batchResults_def)
  have "mset (map (\<lambda>i. ws ! i) (completion_order finish))
          = image_mset (\<lambda>i. ws ! i) (mset [0..<length finish])"
    by (simp only: mset_map mset_completion_order)
  also have "\<dots> = mset (map (\<lambda>i. ws ! i) [0..<length ws])"
    by (simp only: mset_map assms)
  also have "\<dots> = mset ws"
    by (simp only: map_nth)
  finally have m: "mset (map url (batchResults ws outcomes finish)) = mset ws"
    using u by simp
  have s: "map url (batchResults ws outcomes finish) = ws" if "sorted finish"
    using completion_order_sorted [OF that] assms u by (simp add: map_nth)
  from u l m s show ?thesis by blast
qed

theorem batch_outcome_completion_order_witness:
  "length [1, 2 :: nat] = length [''https://a.example'', ''https://b.example'']
   \<and> sorted [1, 2 :: nat]
   \<and> map url (batchResults [''https://a.example'', ''https://b.example'']
                 [Inr (Results sample_result), Inl (Error ''boom'')] [1, 2])
       = [''https://a.example'', ''https://b.example'']"
proof -
  have l: "length [1, 2 :: nat] = length [''https://a.example'', ''https://b.example'']"
    by simp
  have s: "sorted [1, 2 :: nat]"
    by simp
  from batch_outcome_completion_order [OF l, of "[Inr (Results sample_result), Inl (Error ''boom'')]"] l s
  show ?thesis by blast
qed

text \<open>
  C10. When the configuration file is missing, cannot be read, or is not JSON,
  \<open>loadConfig\<close> returns \<open>{ websites: [] }\<close>, and \<open>optimizedBatchTest\<close> returns at once
  without a call of \<open>testWebsite\<close>.
\<close>

theorem loadConfig_total:
  assumes "files fs configPath = None \<or> faulty fs ReadFile configPath
           \<or> files fs configPath = Some NotJson"
  shows "loadConfig fs configPath = \<lparr> websites = Some [], testOptions = None \<rparr>
       \<and> optimizedBatchTest fs configPath outcomes finish = (None, [])"
  using assms
  by (auto simp: loadConfig_def optimizedBatchTest_def readFileSync_def split: option.splits)

theorem loadConfig_total_witness:
  "files healthy_disk ''./websites.json'' = None
   \<and> loadConfig healthy_disk ''./websites.json'' = \<lparr> websites = Some [], testOptions = None \<rparr>
   \<and> optimizedBatchTest healthy_disk ''./websites.json'' [] [] = (None, [])"
proof -
  have m: "files healthy_disk ''./websites.json'' = None"
    by (simp add: healthy_disk_def)
  then have "files healthy_disk ''./websites.json'' = None
      \<or> faulty healthy_disk ReadFile ''./websites.json''
      \<or> files healthy_disk ''./websites.json'' = Some NotJson"
    by simp
  from loadConfig_total [OF this, of "[]" "[]"] m show ?thesis by simp
qed

section \<open>Properties of the audit loop\<close>

lemma audit_loop_succeeds:
  assumes fails: "\<And>i s. i < K \<Longrightarrow> lh i s = Inl (err i)"
    and ok: "\<And>s. lh K s = Inr (Some r)"
    and K: "K \<le> 2"
  shows "retryCount \<le> K \<Longrightarrow>
           \<exists>used'. audit_loop lh retryCount settings used = (Inr (Some r), used')
             \<and> length used' = length used + (K - retryCount) + 1"
proof (induction "K - retryCount" arbitrary: retryCount settings used)
  case 0
  then have "retryCount = K" by simp
  with K ok show ?case
    by (subst audit_loop.simps) simp
next
  case (Suc n)
  then have lt: "retryCount < K" by simp
  with K have lt2: "retryCount < 2" by simp
  let ?s = "if message_includes (message (err retryCount)) ''start lh:driver:navigate''
            then relaxed_settings settings else settings"
  from lt2 fails [OF lt]
  have eq: "audit_loop lh retryCount settings used
              = audit_loop lh (Suc retryCount) ?s (used @ [settings])"
    by (subst audit_loop.simps) (simp add: Let_def)
  from Suc.hyps(2) have "n = K - Suc retryCount" by simp
  from Suc.hyps(1) [OF this, of ?s "used @ [settings]"] lt
  obtain used' where "audit_loop lh (Suc retryCount) ?s (used @ [settings]) = (Inr (Some r), used')"
    and "length used' = length (used @ [settings]) + (K - Suc retryCount) + 1"
    by auto
  with eq lt show ?case by auto
qed

lemma audit_loop_exhausts:
  assumes fails: "\<And>i s. i \<le> 2 \<Longrightarrow> lh i s = Inl (err i)"
  shows "retryCount \<le> 2 \<Longrightarrow>
           \<exists>used'. audit_loop lh retryCount settings used = (Inl (err 2), used')
             \<and> length used' = length used + (2 - retryCount) + 1"
proof (induction "2 - retryCount" arbitrary: retryCount settings used)
  case 0
  then have "retryCount = 2" by simp
  with fails [of 2] show ?case
    by (subst audit_loop.simps) (simp add: Let_def)
next
  case (Suc n)
  then have lt2: "retryCount < 2" by simp
  let ?s = "if message_includes (message (err retryCount)) ''start lh:driver:navigate''
            then relaxed_settings settings else settings"
  from lt2 fails [of retryCount]
  have eq: "audit_loop lh retryCount settings used
              = audit_loop lh (Suc retryCount) ?s (used @ [settings])"
    by (subst audit_loop.simps) (simp add: Let_def)
  from Suc.hyps(2) have "n = 2 - Suc retryCount" by simp
  from Suc.hyps(1) [OF this, of ?s "used @ [settings]"] lt2
  obtain used' where "audit_loop lh (Suc retryCount) ?s (used @ [settings]) = (Inl (err 2), used')"
    and "length used' = length (used @ [settings]) + (2 - Suc retryCount) + 1"
    by auto
  with eq lt2 show ?case by auto
qed

text \<open>
  The audit loop has the retry budget 2: after \<open>K \<le> 2\<close> failures and a success it
  returns that result after \<open>K + 1\<close> calls; when the first three calls fail it throws the
  third error after three calls.
\<close>

lemma audit_retry_budget:
  "(\<forall>i<K. \<forall>s. lh i s = Inl (err i)) \<Longrightarrow> (\<forall>s. lh K s = Inr (Some r)) \<Longrightarrow> K \<le> 2 \<Longrightarrow>
     fst (run_audit lh) = Inr r \<and> length (snd (run_audit lh)) = K + 1"
  "(\<forall>i\<le>2. \<forall>s. lh i s = Inl (err i)) \<Longrightarrow>
     fst (run_audit lh) = Inl (err 2) \<and> length (snd (run_audit lh)) = 3"
proof -
  assume "\<forall>i<K. \<forall>s. lh i s = Inl (err i)" "\<forall>s. lh K s = Inr (Some r)" "K \<le> 2"
  with audit_loop_succeeds [of K lh err r 0 initial_settings "[]"]
  show "fst (run_audit lh) = Inr r \<and> length (snd (run_audit lh)) = K + 1"
    by (auto simp: run_audit_def)
next
  assume "\<forall>i\<le>2. \<forall>s. lh i s = Inl (err i)"
  with audit_loop_exhausts [of lh err 0 initial_settings "[]"]
  show "fst (run_audit lh) = Inl (err 2) \<and> length (snd (run_audit lh)) = 3"
    by (auto simp: run_audit_def)
qed

text \<open>Once a call was made with the relaxed settings, every later call is.\<close>

lemma relaxed_settings_idem: "relaxed_settings (relaxed_settings s) = relaxed_settings s"
  by (simp add: relaxed_settings_def)

lemma audit_loop_monotonic:
  assumes "audit_loop lh retryCount settings used = (res, used')"
    and "used = replicate a s0 @ replicate b (relaxed_settings s0)"
    and "settings = s0 \<and> b = 0 \<or> settings = relaxed_settings s0"
  shows "\<exists>a' b'. used' = replicate a' s0 @ replicate b' (relaxed_settings s0)"
  using assms
proof (induction lh retryCount settings used arbitrary: a b rule: audit_loop.induct)
  case (1 lh retryCount settings used)
  note eq = "1.prems"(1) [unfolded audit_loop.simps [of lh retryCount settings used]]
  have app: "\<exists>a' b'. used @ [settings] = replicate a' s0 @ replicate b' (relaxed_settings s0)
               \<and> (settings = s0 \<and> b' = 0 \<or> settings = relaxed_settings s0)"
  proof (cases "settings = relaxed_settings s0")
    case True
    with "1.prems"(2) have "used @ [settings] = replicate a s0 @ replicate (Suc b) (relaxed_settings s0)"
      by (simp add: replicate_append_same)
    with True show ?thesis by blast
  next
    case False
    with "1.prems"(3) have s: "settings = s0" and b: "b = 0" by auto
    with "1.prems"(2) have "used @ [settings] = replicate (Suc a) s0 @ replicate 0 (relaxed_settings s0)"
      by (simp add: replicate_append_same)
    with s show ?thesis by blast
  qed
  show ?case
  proof (cases "retryCount \<le> 2")
    case False
    with eq have "used' = used" by simp
    with "1.prems"(2) show ?thesis by blast
  next
    case True
    show ?thesis
    proof (cases "lh retryCount settings")
      case (Inr rr)
      with True eq have "used' = used @ [settings]" by simp
      with app show ?thesis by blast
    next
      case (Inl e)
      let ?s = "if message_includes (message e) ''start lh:driver:navigate''
                then relaxed_settings settings else settings"
      show ?thesis
      proof (cases "retryCount < 2")
        case False
        with True Inl eq have "used' = used @ [settings]" by (simp add: Let_def)
        with app show ?thesis by blast
      next
        case lt: True
        from True Inl lt eq
        have run: "audit_loop lh (retryCount + 1) ?s (used @ [settings]) = (res, used')"
          by (simp add: Let_def)
        from app obtain a' b' where
          u: "used @ [settings] = replicate a' s0 @ replicate b' (relaxed_settings s0)"
          and c: "settings = s0 \<and> b' = 0 \<or> settings = relaxed_settings s0"
          by blast
        have c': "?s = s0 \<and> b' = 0 \<or> ?s = relaxed_settings s0"
          using c by (auto simp: relaxed_settings_idem)
        from "1.IH" [OF True Inl refl lt run u c'] show ?thesis .
      qed
    qed
  qed
qed

end
